theory Spec2Isabelle
  imports Main "HOL-Library.Sublist"
begin

section \<open>The command center of \<^verbatim>\<open>src/lib/commandCenter/commands.ts\<close>\<close>

text \<open>
  A shallow embedding of the command registry, the availability overlay and the keydown
  handler. Conventions:
  \<^item> an optional boolean property (\<^verbatim>\<open>disabled?: boolean\<close>) is a \<open>bool option\<close>; JavaScript
    truthiness of such a value is \<open>truthy\<close>;
  \<^item> a command object carries its reference in the field \<open>ref\<close>: the source compares
    commands with \<^verbatim>\<open>===\<close>, which is equality of references, not of contents;
  \<^item> the callback of a command is opaque: running it is recorded in the handler's trace;
  \<^item> the fields \<^verbatim>\<open>label\<close>, \<^verbatim>\<open>group\<close> and \<^verbatim>\<open>icon\<close> are only read by the palette's display
    code and are left out;
  \<^item> a key label is a string of code units from U+0000 to U+00FF, one \<open>char\<close> each.
\<close>

subsection \<open>Commands\<close>

record BaseCommand =
  ref :: nat
  disabled :: "bool option"
  forceEnable :: "bool option"

record KeyedCommand = BaseCommand +
  keys :: "string list"
  ctrl :: "bool option"
  shift :: "bool option"
  alt :: "bool option"

datatype Command = Base BaseCommand | Keyed KeyedCommand

fun isKeyedCommand :: "Command \<Rightarrow> bool" where
  "isKeyedCommand (Keyed c) = True"
| "isKeyedCommand (Base c) = False"

fun ref_of :: "Command \<Rightarrow> nat" where
  "ref_of (Keyed c) = ref c"
| "ref_of (Base c) = ref c"

definition truthy :: "bool option \<Rightarrow> bool" where
  "truthy b = (b = Some True)"

subsection \<open>Strings\<close>

text \<open>\<^verbatim>\<open>a.includes(b)\<close>: \<open>b\<close> occurs in \<open>a\<close> as a contiguous run.\<close>

fun str_includes :: "string \<Rightarrow> string \<Rightarrow> bool" where
  "str_includes [] b = (b = [])"
| "str_includes (x # xs) b = (prefix b (x # xs) \<or> str_includes xs b)"

text \<open>\<^verbatim>\<open>xs.join(sep)\<close> on an array of strings.\<close>

fun join :: "string \<Rightarrow> string list \<Rightarrow> string" where
  "join sep [] = []"
| "join sep [x] = x"
| "join sep (x # y # ys) = x @ sep @ join sep (y # ys)"

text \<open>The decimal rendering of a non-negative integer, as \<^verbatim>\<open>join\<close> renders a number.\<close>

fun digit :: "nat \<Rightarrow> char" where
  "digit n = char_of (48 + n)"

function toString :: "nat \<Rightarrow> string" where
  "toString n = (if n < 10 then [digit n] else toString (n div 10) @ [digit (n mod 10)])"
  by pat_completeness auto
termination
  by (relation "measure id") auto

declare toString.simps [simp del]

text \<open>\<^verbatim>\<open>key.toUpperCase()\<close>, as the list of the UTF-16 code units of the result. A
  character of a label is the code unit of its number (U+0000 to U+00FF). Upper-casing maps
  each character by itself: the letters a to z and the Latin-1 letters U+00E0 to U+00FE
  (but not the division sign U+00F7) move down by 32, the micro sign U+00B5 becomes
  U+039C, the sharp s U+00DF becomes \<^verbatim>\<open>SS\<close>, the y with diaeresis U+00FF becomes U+0178,
  and every other character stays. \<^verbatim>\<open>charCodeAt(0)\<close> is \<^verbatim>\<open>NaN\<close> (here \<open>None\<close>) on the
  empty string.\<close>

definition upper_units :: "char \<Rightarrow> nat list" where
  "upper_units c =
     (let n = (of_char c :: nat)
      in if 97 \<le> n \<and> n \<le> 122 then [n - 32]
         else if n = 181 then [924]
         else if n = 223 then [83, 83]
         else if 224 \<le> n \<and> n \<le> 254 \<and> n \<noteq> 247 then [n - 32]
         else if n = 255 then [376]
         else [n])"

definition toUpperCase :: "string \<Rightarrow> nat list" where
  "toUpperCase s = concat (map upper_units s)"

fun charCodeAt0 :: "nat list \<Rightarrow> nat option" where
  "charCodeAt0 [] = None"
| "charCodeAt0 (n # ns) = Some n"

fun code_toString :: "nat option \<Rightarrow> string" where
  "code_toString None = ''NaN''"
| "code_toString (Some n) = toString n"

subsection \<open>Rank and disputes\<close>

definition modifierCount :: "KeyedCommand \<Rightarrow> nat" where
  "modifierCount command = length (filter truthy [ctrl command, shift command, alt command])"

definition getCommandRank :: "KeyedCommand \<Rightarrow> nat" where
  "getCommandRank command = length (keys command) + modifierCount command * 10"

definition hasDisputing :: "KeyedCommand \<Rightarrow> Command list \<Rightarrow> bool" where
  "hasDisputing command allCommands =
     list_ex (\<lambda>otherCommand.
       if ref command = ref_of otherCommand then False
       else (case otherCommand of
          Base b \<Rightarrow> False
        | Keyed other \<Rightarrow>
            (let keysString = join ''+'' (keys command);
                 otherKeysString = join ''+'' (keys other);
                 cmdRank = getCommandRank command;
                 otherCmdRank = getCommandRank other
             in (str_includes keysString otherKeysString \<or> str_includes otherKeysString keysString)
                \<and> cmdRank \<le> otherCmdRank)))
       allCommands"

subsection \<open>The winner among the candidates\<close>

text \<open>\<^verbatim>\<open>Math.max(...xs)\<close> on scores. The source calls it on lists of at least two
  elements only (the empty list and the singleton return before).\<close>

definition Math_max :: "nat list \<Rightarrow> nat" where
  "Math_max xs = Max (set xs)"

text \<open>\<^verbatim>\<open>xs[0]?.command\<close>: undefined (here \<open>None\<close>) on the empty array.\<close>

fun first_command :: "(KeyedCommand \<times> nat) list \<Rightarrow> KeyedCommand option" where
  "first_command [] = None"
| "first_command (x # xs) = Some (fst x)"

definition getHighestPriorityCommand :: "KeyedCommand list \<Rightarrow> KeyedCommand option" where
  "getHighestPriorityCommand validCommands =
     (if validCommands = [] then None
      else if length validCommands = 1 then Some (validCommands ! 0)
      else
        let rankedCommands = map (\<lambda>command. (command, getCommandRank command)) validCommands;
            highestScore = Math_max (map snd rankedCommands);
            highestScoreCommands = filter (\<lambda>(command, score). score = highestScore) rankedCommands
        in if length highestScoreCommands = 1 then Some (fst (highestScoreCommands ! 0))
           else
             let mostModifiers = Math_max (map (\<lambda>(command, score). modifierCount command)
                                             highestScoreCommands);
                 mostModifiersCommands =
                   filter (\<lambda>(command, score). modifierCount command = mostModifiers)
                     highestScoreCommands
             in first_command mostModifiersCommands)"

subsection \<open>Keyboard events\<close>

record KeyboardEvent =
  keyCode :: nat
  metaKey :: bool
  ctrlKey :: bool
  shiftKey :: bool
  altKey :: bool
  tagName :: string

definition isInputEvent :: "KeyboardEvent \<Rightarrow> bool" where
  "isInputEvent event = (tagName event \<in> set [''INPUT'', ''TEXTAREA'', ''SELECT''])"

subsection \<open>The state of one handler\<close>

text \<open>
  The closure built by \<^verbatim>\<open>commandCenterKeyDownHandler\<close> owns \<^verbatim>\<open>commandsArr\<close>, \<^verbatim>\<open>enabled\<close>,
  \<^verbatim>\<open>recentKeyCodes\<close>, \<^verbatim>\<open>validCommands\<close> and the two debounced functions \<^verbatim>\<open>reset\<close> and
  \<^verbatim>\<open>rankAndExecute\<close>. The record adds what the closure does to the outside: \<open>trace\<close> lists
  the calls of \<^verbatim>\<open>preventDefault\<close>, the callbacks run and the exceptions that left a timer
  task uncaught. \<open>isMac\<close> is the answer of the platform helper.
\<close>

datatype error = TypeError

datatype effect = PreventDefault | Invoked KeyedCommand | Uncaught error

record handler =
  isMac :: bool
  commandsArr :: "Command list"
  enabled :: bool
  recentKeyCodes :: "nat list"
  validCommands :: "KeyedCommand list"
  resetTimer :: "nat option"
  rankTimer :: "nat option"
  trace :: "effect list"

text \<open>
  Modelled from the spec: the helper \<^verbatim>\<open>debounce\<close> of \<^verbatim>\<open>$lib/helpers/debounce\<close> is not part
  of the sources. Its contract: each call defers the action by the delay from the most
  recent call, cancelling any earlier pending call; \<^verbatim>\<open>immediate()\<close> runs the action
  synchronously now and cancels the pending timer. A timer is the number of milliseconds
  left until it fires, or \<open>None\<close> when nothing is pending.
\<close>

definition reset_action :: "handler \<Rightarrow> handler" where
  "reset_action h = h\<lparr>recentKeyCodes := [], validCommands := []\<rparr>"

definition reset_call :: "handler \<Rightarrow> handler" where
  "reset_call h = h\<lparr>resetTimer := Some 2000\<rparr>"

definition reset_immediate :: "handler \<Rightarrow> handler" where
  "reset_immediate h = reset_action (h\<lparr>resetTimer := None\<rparr>)"

definition invoke :: "KeyedCommand \<Rightarrow> handler \<Rightarrow> handler" where
  "invoke command h = h\<lparr>trace := trace h @ [Invoked command]\<rparr>"

text \<open>The body of \<^verbatim>\<open>rankAndExecute\<close>: \<^verbatim>\<open>command.callback()\<close> on an undefined \<^verbatim>\<open>command\<close>
  throws a TypeError, and the statement after it is not reached.\<close>

definition rankAndExecute_action :: "handler \<Rightarrow> error + handler" where
  "rankAndExecute_action h =
     (case getHighestPriorityCommand (validCommands h) of
        None \<Rightarrow> Inl TypeError
      | Some command \<Rightarrow> Inr (reset_immediate (invoke command h)))"

definition rankAndExecute_call :: "handler \<Rightarrow> handler" where
  "rankAndExecute_call h = h\<lparr>rankTimer := Some 200\<rparr>"

definition execute :: "KeyedCommand \<Rightarrow> handler \<Rightarrow> handler" where
  "execute command h =
     (if hasDisputing command (commandsArr h)
      then rankAndExecute_call (h\<lparr>validCommands := validCommands h @ [command]\<rparr>)
      else reset_immediate (invoke command h))"

subsection \<open>A keydown event\<close>

definition commandKeyCodes :: "KeyedCommand \<Rightarrow> nat option list" where
  "commandKeyCodes command = map (\<lambda>key. charCodeAt0 (toUpperCase key)) (keys command)"

text \<open>The body of the loop over \<^verbatim>\<open>commandsArr\<close>; \<^verbatim>\<open>continue\<close> returns the state as it is.\<close>

fun loop_body :: "KeyboardEvent \<Rightarrow> Command \<Rightarrow> handler \<Rightarrow> handler" where
  "loop_body event (Base b) h = h"
| "loop_body event (Keyed command) h =
     (if \<not> truthy (forceEnable command) \<and> truthy (disabled command) then h
      else if \<not> truthy (forceEnable command) \<and> \<not> enabled h then h
      else if \<not> truthy (forceEnable command) \<and> isInputEvent event then h
      else
        let isMetaPressed =
              (if truthy (ctrl command) then (if isMac h then metaKey event else ctrlKey event)
               else True);
            isShiftPressed = (if truthy (shift command) then shiftKey event else True);
            isAltPressed = (if truthy (alt command) then altKey event else True);
            allKeysPressed =
              str_includes (join [] (map toString (recentKeyCodes h)))
                (join [] (map code_toString (commandKeyCodes command)))
        in if allKeysPressed \<and> isMetaPressed \<and> isShiftPressed \<and> isAltPressed
           then execute command (h\<lparr>trace := trace h @ [PreventDefault]\<rparr>)
           else h)"

definition keydown :: "KeyboardEvent \<Rightarrow> handler \<Rightarrow> handler" where
  "keydown event h =
     fold (loop_body event) (commandsArr h)
       (reset_call (h\<lparr>recentKeyCodes := recentKeyCodes h @ [keyCode event]\<rparr>))"

subsection \<open>Timers firing\<close>

definition fire_reset :: "handler \<Rightarrow> handler" where
  "fire_reset h = reset_action (h\<lparr>resetTimer := None\<rparr>)"

text \<open>An exception thrown by the timer task of \<^verbatim>\<open>rankAndExecute\<close> is caught by nobody:
  it is reported, and the closure stays as the task left it.\<close>

definition fire_rank :: "handler \<Rightarrow> handler" where
  "fire_rank h =
     (let h' = h\<lparr>rankTimer := None\<rparr>
      in case rankAndExecute_action h' of
           Inl e \<Rightarrow> h'\<lparr>trace := trace h' @ [Uncaught e]\<rparr>
         | Inr h'' \<Rightarrow> h'')"

definition tick_rank :: "nat \<Rightarrow> handler \<Rightarrow> handler" where
  "tick_rank dt h =
     (case rankTimer h of
        None \<Rightarrow> h
      | Some r \<Rightarrow> if r \<le> dt then fire_rank h else h\<lparr>rankTimer := Some (r - dt)\<rparr>)"

definition tick_reset :: "nat \<Rightarrow> handler \<Rightarrow> handler" where
  "tick_reset dt h =
     (case resetTimer h of
        None \<Rightarrow> h
      | Some q \<Rightarrow> if q \<le> dt then fire_reset h else h\<lparr>resetTimer := Some (q - dt)\<rparr>)"

definition rank_due_first :: "handler \<Rightarrow> bool" where
  "rank_due_first h =
     (case (rankTimer h, resetTimer h) of (Some r, Some q) \<Rightarrow> r \<le> q | _ \<Rightarrow> True)"

text \<open>\<open>dt\<close> milliseconds pass with no keydown: the timers that are due fire, the earlier
  one first. Neither task arms a timer, so each fires at most once.\<close>

definition advance :: "nat \<Rightarrow> handler \<Rightarrow> handler" where
  "advance dt h =
     (if rank_due_first h then tick_reset dt (tick_rank dt h)
      else tick_rank dt (tick_reset dt h))"

datatype input = KeyDown KeyboardEvent | Wait nat

fun step :: "input \<Rightarrow> handler \<Rightarrow> handler" where
  "step (KeyDown event) h = keydown event h"
| "step (Wait dt) h = advance dt h"

definition run :: "input list \<Rightarrow> handler \<Rightarrow> handler" where
  "run ins h = fold step ins h"

subsection \<open>The stores\<close>

text \<open>A JavaScript \<^verbatim>\<open>Map\<close> keeps its entries in the order of first insertion: an
  association list with one entry for each key.\<close>

type_synonym uuid = string

fun Map_set :: "'k \<Rightarrow> 'v \<Rightarrow> ('k \<times> 'v) list \<Rightarrow> ('k \<times> 'v) list" where
  "Map_set k v [] = [(k, v)]"
| "Map_set k v (e # m) = (if fst e = k then (k, v) # m else e # Map_set k v m)"

definition Map_delete :: "'k \<Rightarrow> ('k \<times> 'v) list \<Rightarrow> ('k \<times> 'v) list" where
  "Map_delete k m = filter (\<lambda>e. fst e \<noteq> k) m"

definition Map_values :: "('k \<times> 'v) list \<Rightarrow> 'v list" where
  "Map_values m = map snd m"

definition commands :: "(uuid \<times> Command list) list \<Rightarrow> Command list" where
  "commands commandMap = concat (Map_values commandMap)"

definition commandsEnabled :: "(uuid \<times> bool) list \<Rightarrow> bool" where
  "commandsEnabled disabledMap = list_all (\<lambda>disabled. \<not> disabled) (Map_values disabledMap)"

text \<open>The value of the derived store \<^verbatim>\<open>commandCenterKeyDownHandler\<close> for a value of
  \<^verbatim>\<open>commandMap\<close> and of \<^verbatim>\<open>commandsEnabled\<close>: a new closure.\<close>

definition commandCenterKeyDownHandler :: "bool \<Rightarrow> (uuid \<times> Command list) list \<Rightarrow> bool \<Rightarrow> handler" where
  "commandCenterKeyDownHandler mac commandMap en =
     \<lparr>isMac = mac, commandsArr = concat (Map_values commandMap), enabled = en,
      recentKeyCodes = [], validCommands = [], resetTimer = None, rankTimer = None,
      trace = []\<rparr>"

text \<open>\<^verbatim>\<open>registerCommands.subscribe\<close> draws a uuid and hands out a setter and a release
  function for the entry of that uuid.\<close>

definition registerCommands_set ::
    "uuid \<Rightarrow> Command list \<Rightarrow> (uuid \<times> Command list) list \<Rightarrow> (uuid \<times> Command list) list" where
  "registerCommands_set uuid newCommands current = Map_set uuid newCommands current"

definition registerCommands_release ::
    "uuid \<Rightarrow> (uuid \<times> Command list) list \<Rightarrow> (uuid \<times> Command list) list" where
  "registerCommands_release uuid current = Map_delete uuid current"



text \<open>
  The stores of \<^verbatim>\<open>svelte/store\<close> are library code. A derived store runs its callback
  again each time one of its inputs announces a value: \<^verbatim>\<open>commandMap\<close> holds an object and
  announces every update; \<^verbatim>\<open>commandsEnabled\<close> holds a boolean and announces it only when
  it differs from the one before. \<open>keyDownHandler\<close> is the closure that the derived store
  \<^verbatim>\<open>commandCenterKeyDownHandler\<close> currently holds, and the one that receives the keydown
  events. Nothing in the source cancels the timers of a closure that the store has
  replaced: \<open>retired\<close> lists the replaced closures, oldest first, each with its candidates
  and its timers as they were, and their timers go on running.
\<close>

record stores =
  platformIsMac :: bool
  commandMap :: "(uuid \<times> Command list) list"
  disabledMap :: "(uuid \<times> bool) list"
  keyDownHandler :: handler
  retired :: "handler list"







text \<open>The state in which a keydown event tests the command that follows the commands
  \<open>before\<close> in \<open>commandsArr\<close>: the code of the event is appended to the history, the
  inactivity timer is armed again, and the loop has run over \<open>before\<close>.\<close>

definition tested_in :: "KeyboardEvent \<Rightarrow> Command list \<Rightarrow> handler \<Rightarrow> handler" where
  "tested_in event before h =
     fold (loop_body event) before
       (reset_call (h\<lparr>recentKeyCodes := recentKeyCodes h @ [keyCode event]\<rparr>))"

section \<open>The notions of the specification\<close>

text \<open>Rank: the number of keys plus ten times the number of modifiers declared true.\<close>

definition declared_true :: "bool option \<Rightarrow> nat" where
  "declared_true b = (if b = Some True then 1 else 0)"

definition modifiers :: "KeyedCommand \<Rightarrow> nat" where
  "modifiers c = declared_true (ctrl c) + declared_true (shift c) + declared_true (alt c)"

definition rank :: "KeyedCommand \<Rightarrow> nat" where
  "rank c = length (keys c) + 10 * modifiers c"

text \<open>The members of a list that no member exceeds, in the order of the list.\<close>

definition maximal :: "('a \<Rightarrow> nat) \<Rightarrow> 'a list \<Rightarrow> 'a list" where
  "maximal f xs = filter (\<lambda>x. \<forall>y \<in> set xs. f y \<le> f x) xs"

text \<open>Winner: a single candidate wins; otherwise the single candidate of maximal rank;
  otherwise the first of those that have, among the candidates of maximal rank, the most
  modifiers.\<close>

definition winner :: "KeyedCommand list \<Rightarrow> KeyedCommand option" where
  "winner candidates =
     (case candidates of
        [c] \<Rightarrow> Some c
      | _ \<Rightarrow> (case maximal rank candidates of
                [c] \<Rightarrow> Some c
              | best \<Rightarrow> (case maximal modifiers best of [] \<Rightarrow> None | c # _ \<Rightarrow> Some c)))"

text \<open>Signature: the codes of the upper-case first characters of the key labels, one
  after the other.\<close>

definition signature :: "KeyedCommand \<Rightarrow> string" where
  "signature c = concat (map code_toString (commandKeyCodes c))"

text \<open>Disputes, as the specification words it: on signatures.\<close>

definition disputes :: "KeyedCommand \<Rightarrow> Command list \<Rightarrow> bool" where
  "disputes c registry =
     (\<exists>d. Keyed d \<in> set registry \<and> ref d \<noteq> ref c
        \<and> (sublist (signature c) (signature d) \<or> sublist (signature d) (signature c))
        \<and> rank c \<le> rank d)"

text \<open>Eligibility, modifier satisfaction and matching.\<close>

definition eligible :: "bool \<Rightarrow> KeyboardEvent \<Rightarrow> KeyedCommand \<Rightarrow> bool" where
  "eligible globalEnabled event c =
     (if truthy (forceEnable c) then True
      else \<not> truthy (disabled c) \<and> globalEnabled \<and> \<not> isInputEvent event)"

definition modifiers_held :: "bool \<Rightarrow> KeyboardEvent \<Rightarrow> KeyedCommand \<Rightarrow> bool" where
  "modifiers_held mac event c =
     ((truthy (ctrl c) \<longrightarrow> (if mac then metaKey event else ctrlKey event))
      \<and> (truthy (shift c) \<longrightarrow> shiftKey event)
      \<and> (truthy (alt c) \<longrightarrow> altKey event))"

definition matches :: "KeyboardEvent \<Rightarrow> handler \<Rightarrow> KeyedCommand \<Rightarrow> bool" where
  "matches event h c =
     (sublist (signature c) (concat (map toString (recentKeyCodes h)))
      \<and> modifiers_held (isMac h) event c)"

text \<open>The commands whose callbacks a trace ran, in the order of the calls.\<close>

fun callbacks :: "effect list \<Rightarrow> KeyedCommand list" where
  "callbacks [] = []"
| "callbacks (Invoked c # es) = c # callbacks es"
| "callbacks (e # es) = callbacks es"

text \<open>The candidates of highest score, and among candidates those with most modifiers,
  as \<^verbatim>\<open>getHighestPriorityCommand\<close> filters them.\<close>

definition highest :: "KeyedCommand list \<Rightarrow> KeyedCommand list" where
  "highest cs = filter (\<lambda>c. getCommandRank c = Math_max (map getCommandRank cs)) cs"

definition mostMod :: "KeyedCommand list \<Rightarrow> KeyedCommand list" where
  "mostMod cs = filter (\<lambda>c. modifierCount c = Math_max (map modifierCount cs)) cs"

text \<open>All candidates and all commands whose callback ran satisfy \<open>Q\<close>.\<close>

definition confined :: "(KeyedCommand \<Rightarrow> bool) \<Rightarrow> handler \<Rightarrow> bool" where
  "confined Q h = ((\<forall>c \<in> set (validCommands h). Q c) \<and> (\<forall>c \<in> set (callbacks (trace h)). Q c))"

section \<open>Concrete commands, events and handlers\<close>

definition ex_A :: KeyedCommand where
  "ex_A = \<lparr>ref = 1, disabled = None, forceEnable = None, keys = [''g'', ''d''],
           ctrl = None, shift = None, alt = None\<rparr>"

definition ex_B :: KeyedCommand where
  "ex_B = \<lparr>ref = 2, disabled = None, forceEnable = None, keys = [''d''],
           ctrl = None, shift = None, alt = None\<rparr>"

definition ex_G :: KeyedCommand where
  "ex_G = \<lparr>ref = 3, disabled = None, forceEnable = None, keys = [''g''],
           ctrl = None, shift = None, alt = None\<rparr>"

definition ex_upper_D :: KeyedCommand where
  "ex_upper_D = \<lparr>ref = 4, disabled = None, forceEnable = None, keys = [''D''],
           ctrl = None, shift = None, alt = None\<rparr>"

definition ex_plus :: KeyedCommand where
  "ex_plus = \<lparr>ref = 5, disabled = None, forceEnable = None, keys = [''+''],
           ctrl = None, shift = None, alt = None\<rparr>"

definition press :: "nat \<Rightarrow> KeyboardEvent" where
  "press k = \<lparr>keyCode = k, metaKey = False, ctrlKey = False, shiftKey = False,
              altKey = False, tagName = ''BODY''\<rparr>"

definition ex_handler_BA :: handler where
  "ex_handler_BA = commandCenterKeyDownHandler False [(''u'', [Keyed ex_B, Keyed ex_A])] True"

definition ex_resolving :: handler where
  "ex_resolving = \<lparr>isMac = False, commandsArr = [Keyed ex_B, Keyed ex_A], enabled = True,
      recentKeyCodes = [68], validCommands = [ex_B], resetTimer = Some 2000,
      rankTimer = Some 200, trace = [PreventDefault]\<rparr>"

definition ex_off :: KeyedCommand where
  "ex_off = \<lparr>ref = 6, disabled = Some True, forceEnable = Some False, keys = [''d''],
           ctrl = None, shift = None, alt = None\<rparr>"

definition ex_forced :: KeyedCommand where
  "ex_forced = \<lparr>ref = 7, disabled = Some True, forceEnable = Some True, keys = [''d''],
           ctrl = None, shift = None, alt = None\<rparr>"

definition typing :: "nat \<Rightarrow> KeyboardEvent" where
  "typing k = \<lparr>keyCode = k, metaKey = False, ctrlKey = False, shiftKey = False,
               altKey = False, tagName = ''INPUT''\<rparr>"

definition ex_GDX :: KeyedCommand where
  "ex_GDX = \<lparr>ref = 8, disabled = None, forceEnable = None, keys = [''g'', ''d'', ''x''],
           ctrl = None, shift = None, alt = None\<rparr>"

definition ex_handler_ABG :: handler where
  "ex_handler_ABG =
     commandCenterKeyDownHandler False [(''u'', [Keyed ex_A, Keyed ex_B, Keyed ex_G])] True"

text \<open>
  The chord \<^verbatim>\<open>g d\<close> against the key \<^verbatim>\<open>d\<close>: \<open>A\<close> has the keys \<^verbatim>\<open>g\<close>, \<^verbatim>\<open>d\<close> and \<open>B\<close>
  the key \<^verbatim>\<open>d\<close>, neither requires a modifier, both are eligible for the event of \<^verbatim>\<open>d\<close>,
  both are in the flattened view \<open>cs\<close>, and the signature of no other chorded command of
  \<open>cs\<close> occurs in the key codes \<^verbatim>\<open>7168\<close> of the two presses.
\<close>

definition chord_pair ::
    "KeyedCommand \<Rightarrow> KeyedCommand \<Rightarrow> Command list \<Rightarrow> bool \<Rightarrow> KeyboardEvent \<Rightarrow> bool" where
  "chord_pair A B cs en event =
     (keys A = [''g'', ''d''] \<and> keys B = [''d'']
      \<and> modifierCount A = 0 \<and> modifierCount B = 0
      \<and> ref A \<noteq> ref B
      \<and> Keyed A \<in> set cs \<and> Keyed B \<in> set cs
      \<and> (\<forall>c. Keyed c \<in> set cs \<longrightarrow> c = A \<or> c = B \<or> \<not> sublist (signature c) ''7168'')
      \<and> eligible en event A \<and> eligible en event B
      \<and> keyCode event = 68)"

text \<open>The states of the handler while the loop runs for the event of \<^verbatim>\<open>d\<close>: before the
  callback of \<open>A\<close> has run, and after.\<close>

definition pending ::
    "KeyedCommand \<Rightarrow> KeyedCommand \<Rightarrow> Command list \<Rightarrow> bool \<Rightarrow> handler \<Rightarrow> bool" where
  "pending A B cs en h =
     (commandsArr h = cs \<and> enabled h = en \<and> recentKeyCodes h = [71, 68]
      \<and> set (validCommands h) \<subseteq> {A, B} \<and> callbacks (trace h) = []
      \<and> resetTimer h = Some 2000
      \<and> (validCommands h \<noteq> [] \<longrightarrow> rankTimer h = Some 200))"

definition settled :: "KeyedCommand \<Rightarrow> Command list \<Rightarrow> bool \<Rightarrow> handler \<Rightarrow> bool" where
  "settled A cs en h =
     (commandsArr h = cs \<and> enabled h = en \<and> recentKeyCodes h = []
      \<and> validCommands h = [] \<and> callbacks (trace h) = [A] \<and> resetTimer h = None)"

definition ex_listening :: handler where
  "ex_listening = \<lparr>isMac = False, commandsArr = [Keyed ex_B, Keyed ex_A], enabled = True,
      recentKeyCodes = [71], validCommands = [], resetTimer = Some 1900,
      rankTimer = None, trace = []\<rparr>"




section \<open>Strings and lists\<close>

lemma str_includes_sublist: "str_includes a b \<longleftrightarrow> sublist b a"
  by (induction a) (auto simp: sublist_Cons_right)

lemma sublist_eval: "sublist b a = str_includes a b"
  by (simp add: str_includes_sublist)

lemma join_empty_Cons: "join [] (x # xs) = x @ join [] xs"
  by (cases xs) auto

lemma join_empty_concat: "join [] xs = concat xs"
proof (induction xs)
  case Nil
  show ?case by simp
next
  case (Cons x xs)
  then show ?case by (simp only: join_empty_Cons concat.simps)
qed

lemma length_one_conv: "length xs = Suc 0 \<longleftrightarrow> (\<exists>x. xs = [x])"
  by (cases xs) auto

lemmas char_eval = toUpperCase_def upper_units_def char_of_def bit_Suc_0_iff

lemma toString_71: "toString 71 = ''71''"
  by (simp add: toString.simps char_eval)

lemma toString_68: "toString 68 = ''68''"
  by (simp add: toString.simps char_eval)

lemma toString_43: "toString 43 = ''43''"
  by (simp add: toString.simps char_eval)

lemma code_g: "charCodeAt0 (toUpperCase ''g'') = Some 71"
  by (simp add: char_eval)

lemma code_d: "charCodeAt0 (toUpperCase ''d'') = Some 68"
  by (simp add: char_eval)

lemma code_D: "charCodeAt0 (toUpperCase ''D'') = Some 68"
  by (simp add: char_eval)

lemma code_plus: "charCodeAt0 (toUpperCase ''+'') = Some 43"
  by (simp add: char_eval)

section \<open>The stores\<close>

lemma Map_delete_after_set:
  "k \<notin> fst ` set m \<Longrightarrow> Map_delete k (Map_set k v m) = m"
proof (induction m)
  case Nil
  show ?case by (simp add: Map_delete_def)
next
  case (Cons e m)
  then have "fst e \<noteq> k" and "Map_delete k (Map_set k v m) = m" by auto
  then show ?case by (simp add: Map_delete_def)
qed

lemma keys_Map_set: "fst ` set (Map_set k v m) = insert k (fst ` set m)"
  by (induction m) auto

lemma map_of_Map_delete: "k' \<noteq> k \<Longrightarrow> map_of (Map_delete k m) k' = map_of m k'"
  by (induction m) (auto simp: Map_delete_def)

text \<open>
  C7. For every state of the availability overlay, the empty one included, the derived
  flag \<open>commandsEnabled\<close> is true if and only if no entry of the map has the value true.
\<close>

theorem commandsEnabled_iff_no_true_entry:
  "commandsEnabled overlay = (\<not> (\<exists>e \<in> set overlay. snd e = True))
   \<and> commandsEnabled []"
  by (auto simp: commandsEnabled_def Map_values_def list_all_iff)

text \<open>
  C8. Releasing a registration removes the entry of that registrant only. With distinct
  ids, registering \<open>A\<close>, then \<open>B\<close>, then releasing \<open>B\<close> gives back the registry as it was
  after registering \<open>A\<close>; from the empty registry the flattened view is \<open>A\<close>, in its order;
  and a release leaves the entry of every other id as it was.
\<close>

theorem release_removes_only_own_entry:
  assumes "uuidA \<noteq> uuidB" and "uuidB \<notin> fst ` set m"
  shows "registerCommands_release uuidB
           (registerCommands_set uuidB B (registerCommands_set uuidA A m))
         = registerCommands_set uuidA A m
       \<and> commands (registerCommands_release uuidB
           (registerCommands_set uuidB B (registerCommands_set uuidA A []))) = A
       \<and> (\<forall>k. k \<noteq> uuidB \<longrightarrow>
            map_of (registerCommands_release uuidB m') k = map_of m' k)"
proof -
  have "uuidB \<notin> fst ` set (Map_set uuidA A m)"
    using assms by (simp add: keys_Map_set)
  then have 1: "Map_delete uuidB (Map_set uuidB B (Map_set uuidA A m)) = Map_set uuidA A m"
    by (rule Map_delete_after_set)
  have 2: "commands (Map_delete uuidB (Map_set uuidB B (Map_set uuidA A []))) = A"
    using assms(1) by (simp add: Map_delete_def commands_def Map_values_def)
  show ?thesis
    using 1 2
    by (simp add: registerCommands_release_def registerCommands_set_def map_of_Map_delete)
qed

theorem release_removes_only_own_entry_witness:
  "''a'' \<noteq> ''b'' \<and> ''b'' \<notin> fst ` set ([] :: (uuid \<times> Command list) list)
   \<and> commands (registerCommands_release ''b''
        (registerCommands_set ''b'' [Keyed ex_B]
          (registerCommands_set ''a'' [Keyed ex_A, Keyed ex_G] [])))
     = [Keyed ex_A, Keyed ex_G]"
proof -
  have h: "''a'' \<noteq> ''b''" "''b'' \<notin> fst ` set ([] :: (uuid \<times> Command list) list)"
    by simp_all
  from release_removes_only_own_entry[OF h, of "[Keyed ex_B]" "[Keyed ex_A, Keyed ex_G]"] h
  show ?thesis by blast
qed

section \<open>Rank, winner and disputes\<close>

lemma modifierCount_modifiers: "modifierCount c = modifiers c"
  by (simp add: modifierCount_def modifiers_def declared_true_def truthy_def)

lemma getCommandRank_rank: "getCommandRank c = rank c"
  by (simp add: getCommandRank_def rank_def modifierCount_modifiers)

lemma Math_max_attained:
  "xs \<noteq> [] \<Longrightarrow> filter (\<lambda>x. f x = Math_max (map f xs)) xs \<noteq> []"
proof -
  assume "xs \<noteq> []"
  then have "Max (f ` set xs) \<in> f ` set xs" by (intro Max_in) auto
  then obtain x where "x \<in> set xs" "f x = Max (f ` set xs)" by auto
  then show ?thesis by (auto simp: Math_max_def filter_empty_conv)
qed

lemma Math_max_iff:
  "x \<in> set xs \<Longrightarrow> f x = Math_max (map f xs) \<longleftrightarrow> (\<forall>y \<in> set xs. f y \<le> f x)"
proof -
  assume x: "x \<in> set xs"
  have fin: "finite (f ` set xs)" by simp
  show ?thesis
  proof
    assume "f x = Math_max (map f xs)"
    then show "\<forall>y \<in> set xs. f y \<le> f x"
      using fin by (auto simp: Math_max_def)
  next
    assume "\<forall>y \<in> set xs. f y \<le> f x"
    then have "Max (f ` set xs) = f x"
      using x fin by (intro Max_eqI) auto
    then show "f x = Math_max (map f xs)" by (simp add: Math_max_def)
  qed
qed

lemma maximal_Math_max: "filter (\<lambda>x. f x = Math_max (map f xs)) xs = maximal f xs"
  unfolding maximal_def by (rule filter_cong) (auto simp: Math_max_iff)

lemma highest_maximal: "highest cs = maximal rank cs"
proof -
  have "getCommandRank = rank" by (rule ext) (rule getCommandRank_rank)
  then show ?thesis by (simp add: highest_def maximal_Math_max)
qed

lemma mostMod_maximal: "mostMod cs = maximal modifiers cs"
proof -
  have "modifierCount = modifiers" by (rule ext) (rule modifierCount_modifiers)
  then show ?thesis by (simp add: mostMod_def maximal_Math_max)
qed

lemma ranked_filter:
  "filter (\<lambda>(command, score). P command score) (map (\<lambda>command. (command, g command)) cs)
   = map (\<lambda>command. (command, g command)) (filter (\<lambda>c. P c (g c)) cs)"
  by (induction cs) auto

lemma first_command_map:
  "first_command (map (\<lambda>command. (command, g command)) cs)
   = (case cs of [] \<Rightarrow> None | c # _ \<Rightarrow> Some c)"
  by (cases cs) auto

text \<open>The function without the pairs of command and score.\<close>

lemma getHighestPriorityCommand_eq:
  "getHighestPriorityCommand cs =
     (if cs = [] then None
      else if length cs = 1 then Some (cs ! 0)
      else if length (highest cs) = 1 then Some (highest cs ! 0)
      else (case mostMod (highest cs) of [] \<Rightarrow> None | c # _ \<Rightarrow> Some c))"
proof -
  let ?r = "\<lambda>command. (command, getCommandRank command)"
  have m1: "map snd (map ?r cs) = map getCommandRank cs" by (simp add: comp_def)
  have f1: "filter (\<lambda>(command, score). score = Math_max (map getCommandRank cs)) (map ?r cs)
            = map ?r (highest cs)"
    unfolding highest_def by (rule ranked_filter)
  have m2: "map (\<lambda>(command, score). modifierCount command) (map ?r (highest cs))
            = map modifierCount (highest cs)" by (simp add: comp_def)
  have f2: "filter (\<lambda>(command, score). modifierCount command = M) (map ?r (highest cs))
            = map ?r (filter (\<lambda>c. modifierCount c = M) (highest cs))" for M
    by (rule ranked_filter)
  show ?thesis
    unfolding getHighestPriorityCommand_def Let_def m1 f1 m2 f2 first_command_map mostMod_def
    by auto
qed

text \<open>On a non-empty list the function returns a member of the list, and one of maximal
  score.\<close>

lemma winner_member_maximal:
  assumes ne: "cs \<noteq> []"
  shows "\<exists>c. getHighestPriorityCommand cs = Some c \<and> c \<in> set cs
            \<and> (\<forall>d \<in> set cs. getCommandRank d \<le> getCommandRank c)"
proof -
  have hne: "highest cs \<noteq> []"
    unfolding highest_def using ne by (rule Math_max_attained)
  then have mne: "mostMod (highest cs) \<noteq> []"
    unfolding mostMod_def by (rule Math_max_attained)
  have top: "c \<in> set cs \<and> (\<forall>d \<in> set cs. getCommandRank d \<le> getCommandRank c)"
    if "c \<in> set (highest cs)" for c
    using that Math_max_iff[of c cs getCommandRank] by (auto simp: highest_def)
  show ?thesis
  proof (cases "length cs = 1")
    case True
    then obtain c where "cs = [c]" by (auto simp: length_one_conv)
    then show ?thesis by (simp add: getHighestPriorityCommand_eq)
  next
    case False
    show ?thesis
    proof (cases "length (highest cs) = 1")
      case True
      then have "highest cs ! 0 \<in> set (highest cs)" by (intro nth_mem) simp
      then have "highest cs ! 0 \<in> set cs
          \<and> (\<forall>d \<in> set cs. getCommandRank d \<le> getCommandRank (highest cs ! 0))"
        by (rule top)
      then show ?thesis
        using ne False True by (simp add: getHighestPriorityCommand_eq)
    next
      case h1: False
      obtain d ds where d: "mostMod (highest cs) = d # ds"
        using mne by (cases "mostMod (highest cs)") auto
      then have "d \<in> set (mostMod (highest cs))" by simp
      then have "d \<in> set (highest cs)" by (simp add: mostMod_def)
      then have "d \<in> set cs \<and> (\<forall>e \<in> set cs. getCommandRank e \<le> getCommandRank d)"
        by (rule top)
      then show ?thesis
        using ne False h1 d by (simp add: getHighestPriorityCommand_eq)
    qed
  qed
qed

lemma fire_rank_Some:
  "getHighestPriorityCommand (validCommands h) = Some c \<Longrightarrow>
   fire_rank h = reset_immediate (invoke c (h\<lparr>rankTimer := None\<rparr>))"
  by (simp add: fire_rank_def rankAndExecute_action_def Let_def)

lemma fire_rank_None:
  "getHighestPriorityCommand (validCommands h) = None \<Longrightarrow>
   fire_rank h = h\<lparr>rankTimer := None, trace := trace h @ [Uncaught TypeError]\<rparr>"
  by (simp add: fire_rank_def rankAndExecute_action_def Let_def)

text \<open>
  C4. \<^verbatim>\<open>getHighestPriorityCommand\<close> is the winner of the specification on every candidate
  list, and \<^verbatim>\<open>getCommandRank\<close> is its rank: the number of keys plus ten times the number
  of the modifiers ctrl, shift and alt that are declared true.
\<close>

theorem getHighestPriorityCommand_is_winner:
  "getHighestPriorityCommand candidates = winner candidates
   \<and> (\<forall>c. getCommandRank c = rank c)"
proof -
  have "getHighestPriorityCommand candidates = winner candidates"
  proof (cases "\<exists>c. candidates = [c]")
    case True
    then show ?thesis by (auto simp: getHighestPriorityCommand_eq winner_def)
  next
    case False
    then have w: "winner candidates =
        (case maximal rank candidates of
           [c] \<Rightarrow> Some c
         | best \<Rightarrow> (case maximal modifiers best of [] \<Rightarrow> None | c # _ \<Rightarrow> Some c))"
      by (auto simp: winner_def split: list.splits)
    show ?thesis
    proof (cases "candidates = []")
      case True
      then show ?thesis by (simp add: getHighestPriorityCommand_eq winner_def maximal_def)
    next
      case ne: False
      show ?thesis
      proof (cases "\<exists>c. maximal rank candidates = [c]")
        case True
        then show ?thesis
          using ne False
          by (auto simp: getHighestPriorityCommand_eq w highest_maximal length_one_conv)
      next
        case m: False
        then have "(case maximal rank candidates of
           [c] \<Rightarrow> Some c
         | best \<Rightarrow> (case maximal modifiers best of [] \<Rightarrow> None | c # _ \<Rightarrow> Some c))
          = (case maximal modifiers (maximal rank candidates) of
               [] \<Rightarrow> None | c # _ \<Rightarrow> Some c)"
          by (auto split: list.splits)
        then show ?thesis
          using ne False m
          by (simp add: getHighestPriorityCommand_eq w highest_maximal mostMod_maximal
                length_one_conv)
      qed
    qed
  qed
  then show ?thesis by (simp add: getCommandRank_rank)
qed

lemma ex_fields [simp]:
  "ref ex_A = 1" "ref ex_B = 2" "ref ex_G = 3" "ref ex_upper_D = 4" "ref ex_plus = 5"
  "keys ex_A = [''g'', ''d'']" "keys ex_B = [''d'']" "keys ex_G = [''g'']"
  "keys ex_upper_D = [''D'']" "keys ex_plus = [''+'']"
  by (simp_all add: ex_A_def ex_B_def ex_G_def ex_upper_D_def ex_plus_def)

lemma ex_ranks [simp]:
  "getCommandRank ex_A = 2" "getCommandRank ex_B = 1" "getCommandRank ex_G = 1"
  "getCommandRank ex_upper_D = 1" "getCommandRank ex_plus = 1"
  by (simp_all add: getCommandRank_def modifierCount_def truthy_def
        ex_A_def ex_B_def ex_G_def ex_upper_D_def ex_plus_def)

theorem getHighestPriorityCommand_is_winner_witness:
  "getHighestPriorityCommand [ex_B, ex_A, ex_upper_D] = Some ex_A
   \<and> winner [ex_B, ex_A, ex_upper_D] = Some ex_A"
proof -
  have r: "rank ex_A = 2" "rank ex_B = 1" "rank ex_upper_D = 1"
    by (simp_all add: getCommandRank_rank[symmetric])
  have "maximal rank [ex_B, ex_A, ex_upper_D] = [ex_A]"
    by (simp add: maximal_def r)
  then have "winner [ex_B, ex_A, ex_upper_D] = Some ex_A"
    by (simp add: winner_def)
  with getHighestPriorityCommand_is_winner[of "[ex_B, ex_A, ex_upper_D]"]
  show ?thesis by simp
qed

text \<open>
  C9. On a non-empty candidate list \<^verbatim>\<open>getHighestPriorityCommand\<close> returns a command, a
  member of the list; so when the resolution timer fires over a non-empty
  \<open>validCommands\<close>, the callback of one of the candidates runs and nothing is thrown.
\<close>

theorem winner_defined_on_nonempty:
  "validCommands h \<noteq> [] \<Longrightarrow>
     (\<exists>c. getHighestPriorityCommand (validCommands h) = Some c \<and> c \<in> set (validCommands h)
        \<and> trace (fire_rank h) = trace h @ [Invoked c])"
proof -
  assume "validCommands h \<noteq> []"
  then obtain c where c: "getHighestPriorityCommand (validCommands h) = Some c"
      "c \<in> set (validCommands h)"
    using winner_member_maximal by blast
  have "trace (fire_rank h) = trace h @ [Invoked c]"
    by (simp add: fire_rank_Some[OF c(1)] reset_immediate_def reset_action_def invoke_def)
  with c show ?thesis by blast
qed

theorem winner_defined_on_nonempty_witness:
  "validCommands ex_resolving \<noteq> []
   \<and> getHighestPriorityCommand (validCommands ex_resolving) = Some ex_B
   \<and> trace (fire_rank ex_resolving) = [PreventDefault, Invoked ex_B]"
proof -
  have ne: "validCommands ex_resolving \<noteq> []" by (simp add: ex_resolving_def)
  have v: "validCommands ex_resolving = [ex_B]" "trace ex_resolving = [PreventDefault]"
    by (simp_all add: ex_resolving_def)
  from winner_defined_on_nonempty[OF ne] v ne show ?thesis by auto
qed

text \<open>The signatures of the concrete commands.\<close>

lemma sig_A: "signature ex_A = ''7168''"
  by (simp add: signature_def commandKeyCodes_def code_g code_d toString_71 toString_68)

lemma sig_B: "signature ex_B = ''68''"
  by (simp add: signature_def commandKeyCodes_def code_d toString_68)

lemma sig_G: "signature ex_G = ''71''"
  by (simp add: signature_def commandKeyCodes_def code_g toString_71)

lemma sig_upper_D: "signature ex_upper_D = ''68''"
  by (simp add: signature_def commandKeyCodes_def code_D toString_68)

lemma sig_plus: "signature ex_plus = ''43''"
  by (simp add: signature_def commandKeyCodes_def code_plus toString_43)

text \<open>
  C3 as amended. \<^verbatim>\<open>hasDisputing\<close> compares the key labels joined by \<^verbatim>\<open>+\<close>, not the
  signatures: a command disputes if and only if another registered chorded command (another
  object) has a joined label string that contains the command's or is contained in it, and
  the command's rank is at most the other's.
\<close>

theorem hasDisputing_iff_joined_labels:
  "hasDisputing c registry \<longleftrightarrow>
     (\<exists>d. Keyed d \<in> set registry \<and> ref d \<noteq> ref c
        \<and> (sublist (join ''+'' (keys c)) (join ''+'' (keys d))
             \<or> sublist (join ''+'' (keys d)) (join ''+'' (keys c)))
        \<and> rank c \<le> rank d)"
proof
  assume "hasDisputing c registry"
  then obtain x where x: "x \<in> set registry" "ref c \<noteq> ref_of x"
     and r: "(case x of Base b \<Rightarrow> False | Keyed other \<Rightarrow>
            (str_includes (join ''+'' (keys c)) (join ''+'' (keys other))
              \<or> str_includes (join ''+'' (keys other)) (join ''+'' (keys c)))
            \<and> getCommandRank c \<le> getCommandRank other)"
    unfolding hasDisputing_def list_ex_iff Let_def by (auto split: if_splits)
  from r obtain d where "x = Keyed d" by (cases x) auto
  with x r show "\<exists>d. Keyed d \<in> set registry \<and> ref d \<noteq> ref c
        \<and> (sublist (join ''+'' (keys c)) (join ''+'' (keys d))
             \<or> sublist (join ''+'' (keys d)) (join ''+'' (keys c)))
        \<and> rank c \<le> rank d"
    by (auto simp: str_includes_sublist getCommandRank_rank)
next
  assume "\<exists>d. Keyed d \<in> set registry \<and> ref d \<noteq> ref c
        \<and> (sublist (join ''+'' (keys c)) (join ''+'' (keys d))
             \<or> sublist (join ''+'' (keys d)) (join ''+'' (keys c)))
        \<and> rank c \<le> rank d"
  then obtain d where d: "Keyed d \<in> set registry" "ref d \<noteq> ref c"
      "sublist (join ''+'' (keys c)) (join ''+'' (keys d))
             \<or> sublist (join ''+'' (keys d)) (join ''+'' (keys c))"
      "rank c \<le> rank d" by blast
  show "hasDisputing c registry"
    unfolding hasDisputing_def list_ex_iff Let_def
    by (rule bexI[OF _ d(1)]) (use d in \<open>auto simp: str_includes_sublist getCommandRank_rank\<close>)
qed

text \<open>
  C3 as stated fails in both directions. The labels \<^verbatim>\<open>d\<close> and \<^verbatim>\<open>D\<close> have the same
  signature \<^verbatim>\<open>68\<close>, so the specification's relation holds, but neither label contains the
  other and \<^verbatim>\<open>hasDisputing\<close> is false. The label \<^verbatim>\<open>+\<close> occurs in \<^verbatim>\<open>g+d\<close>, so
  \<^verbatim>\<open>hasDisputing\<close> is true, but its signature \<^verbatim>\<open>43\<close> does not occur in \<^verbatim>\<open>7168\<close>.
\<close>

theorem disputes_on_signatures_counterexample:
  "disputes ex_B [Keyed ex_B, Keyed ex_upper_D]
   \<and> \<not> hasDisputing ex_B [Keyed ex_B, Keyed ex_upper_D]
   \<and> hasDisputing ex_plus [Keyed ex_plus, Keyed ex_A]
   \<and> \<not> disputes ex_plus [Keyed ex_plus, Keyed ex_A]"
proof -
  have 1: "disputes ex_B [Keyed ex_B, Keyed ex_upper_D]"
    unfolding disputes_def
    by (rule exI[of _ ex_upper_D])
       (simp add: sig_B sig_upper_D getCommandRank_rank[symmetric])
  have 2: "\<not> hasDisputing ex_B [Keyed ex_B, Keyed ex_upper_D]"
    by (simp add: hasDisputing_def)
  have 3: "hasDisputing ex_plus [Keyed ex_plus, Keyed ex_A]"
    by (simp add: hasDisputing_def)
  have 4: "\<not> disputes ex_plus [Keyed ex_plus, Keyed ex_A]"
    unfolding disputes_def
    by (auto simp: sig_plus sig_A sublist_eval)
  from 1 2 3 4 show ?thesis by blast
qed

section \<open>The keydown handler\<close>

lemma loop_body_Keyed:
  "loop_body event (Keyed c) h =
     (if eligible (enabled h) event c \<and> matches event h c
      then execute c (h\<lparr>trace := trace h @ [PreventDefault]\<rparr>) else h)"
proof -
  have inc: "str_includes (join [] (map toString (recentKeyCodes h)))
               (join [] (map code_toString (commandKeyCodes c)))
             = sublist (signature c) (concat (map toString (recentKeyCodes h)))"
    by (simp only: str_includes_sublist join_empty_concat signature_def)
  show ?thesis
    unfolding loop_body.simps Let_def inc eligible_def matches_def modifiers_held_def
    by (cases "truthy (forceEnable c)"; cases "truthy (disabled c)"; cases "enabled h";
        cases "isInputEvent event"; simp)
qed

declare loop_body.simps(2) [simp del]

lemma execute_disputing:
  "hasDisputing c (commandsArr h) \<Longrightarrow>
   execute c h = h\<lparr>validCommands := validCommands h @ [c], rankTimer := Some 200\<rparr>"
  by (simp add: execute_def rankAndExecute_call_def)

lemma execute_plain:
  "\<not> hasDisputing c (commandsArr h) \<Longrightarrow>
   execute c h = h\<lparr>trace := trace h @ [Invoked c], resetTimer := None,
                    recentKeyCodes := [], validCommands := []\<rparr>"
  by (simp add: execute_def reset_immediate_def reset_action_def invoke_def)

lemma callbacks_append: "callbacks (xs @ ys) = callbacks xs @ callbacks ys"
  by (induction xs rule: callbacks.induct) auto

lemma callbacks_Invoked: "Invoked c \<in> set tr \<longleftrightarrow> c \<in> set (callbacks tr)"
  by (induction tr rule: callbacks.induct) auto

subsection \<open>What no step changes, and whom a step can run\<close>

lemma execute_frame:
  "commandsArr (execute c h) = commandsArr h \<and> enabled (execute c h) = enabled h
   \<and> isMac (execute c h) = isMac h"
  by (cases "hasDisputing c (commandsArr h)") (simp_all add: execute_disputing execute_plain)

lemma loop_body_frame:
  "commandsArr (loop_body event x h) = commandsArr h
   \<and> enabled (loop_body event x h) = enabled h
   \<and> isMac (loop_body event x h) = isMac h"
proof (cases x)
  case (Base b)
  then show ?thesis by simp
next
  case (Keyed c)
  show ?thesis
    unfolding Keyed loop_body_Keyed using execute_frame by simp
qed

lemma fold_loop_body_frame:
  "commandsArr (fold (loop_body event) xs h) = commandsArr h
   \<and> enabled (fold (loop_body event) xs h) = enabled h
   \<and> isMac (fold (loop_body event) xs h) = isMac h"
  by (induction xs arbitrary: h) (simp_all add: loop_body_frame)

lemma keydown_frame:
  "commandsArr (keydown event h) = commandsArr h \<and> enabled (keydown event h) = enabled h
   \<and> isMac (keydown event h) = isMac h"
  by (simp add: keydown_def fold_loop_body_frame reset_call_def)

lemma fire_rank_frame:
  "commandsArr (fire_rank h) = commandsArr h \<and> enabled (fire_rank h) = enabled h
   \<and> isMac (fire_rank h) = isMac h"
  by (cases "getHighestPriorityCommand (validCommands h)")
     (simp_all add: fire_rank_None fire_rank_Some reset_immediate_def reset_action_def invoke_def)

lemma tick_rank_frame:
  "commandsArr (tick_rank dt h) = commandsArr h \<and> enabled (tick_rank dt h) = enabled h
   \<and> isMac (tick_rank dt h) = isMac h"
  by (simp add: tick_rank_def fire_rank_frame split: option.splits)

lemma tick_reset_frame:
  "commandsArr (tick_reset dt h) = commandsArr h \<and> enabled (tick_reset dt h) = enabled h
   \<and> isMac (tick_reset dt h) = isMac h"
  by (simp add: tick_reset_def fire_reset_def reset_action_def split: option.splits)

lemma advance_frame:
  "commandsArr (advance dt h) = commandsArr h \<and> enabled (advance dt h) = enabled h
   \<and> isMac (advance dt h) = isMac h"
  by (simp add: advance_def tick_rank_frame tick_reset_frame)

lemma step_frame:
  "commandsArr (step i h) = commandsArr h \<and> enabled (step i h) = enabled h
   \<and> isMac (step i h) = isMac h"
  by (cases i) (simp_all add: keydown_frame advance_frame)


lemma confined_execute:
  assumes "confined Q h" and "Q c"
  shows "confined Q (execute c (h\<lparr>trace := trace h @ [PreventDefault]\<rparr>))"
proof (cases "hasDisputing c (commandsArr h)")
  case True
  then show ?thesis
    using assms by (simp add: execute_disputing confined_def callbacks_append)
next
  case False
  then show ?thesis
    using assms by (simp add: execute_plain confined_def callbacks_append)
qed

lemma confined_loop_body:
  assumes "confined Q h" and "\<And>c. x = Keyed c \<Longrightarrow> eligible (enabled h) event c \<Longrightarrow> Q c"
  shows "confined Q (loop_body event x h)"
proof (cases x)
  case (Base b)
  then show ?thesis using assms(1) by simp
next
  case (Keyed c)
  show ?thesis
    unfolding Keyed loop_body_Keyed
    using assms(1) assms(2)[OF Keyed] confined_execute[of Q h c] by simp
qed

lemma confined_fold_loop_body:
  assumes "confined Q h"
    and "\<And>c. Keyed c \<in> set xs \<Longrightarrow> eligible (enabled h) event c \<Longrightarrow> Q c"
  shows "confined Q (fold (loop_body event) xs h)"
  using assms
proof (induction xs arbitrary: h)
  case Nil
  then show ?case by simp
next
  case (Cons x xs)
  have 1: "confined Q (loop_body event x h)"
    using Cons.prems by (intro confined_loop_body) auto
  have 2: "enabled (loop_body event x h) = enabled h"
    by (simp add: loop_body_frame)
  show ?case
    using Cons.IH[OF 1] Cons.prems(2) 2 by simp
qed

lemma confined_keydown:
  assumes "confined Q h"
    and "\<And>c. Keyed c \<in> set (commandsArr h) \<Longrightarrow> eligible (enabled h) event c \<Longrightarrow> Q c"
  shows "confined Q (keydown event h)"
  unfolding keydown_def
  using assms by (intro confined_fold_loop_body) (simp_all add: confined_def reset_call_def)

lemma confined_fire_rank: "confined Q h \<Longrightarrow> confined Q (fire_rank h)"
proof (cases "getHighestPriorityCommand (validCommands h)")
  case None
  assume "confined Q h"
  then show ?thesis
    by (simp add: fire_rank_None[OF None] confined_def callbacks_append)
next
  case (Some c)
  assume q: "confined Q h"
  have "validCommands h \<noteq> []"
    using Some by (auto simp: getHighestPriorityCommand_def)
  then have "c \<in> set (validCommands h)"
    using winner_member_maximal[of "validCommands h"] Some by auto
  then have "Q c" using q by (simp add: confined_def)
  then show ?thesis
    using q
    by (simp add: fire_rank_Some[OF Some] confined_def callbacks_append reset_immediate_def
          reset_action_def invoke_def)
qed

lemma confined_tick_rank: "confined Q h \<Longrightarrow> confined Q (tick_rank dt h)"
  by (auto simp: tick_rank_def confined_fire_rank split: option.splits)
     (simp add: confined_def)

lemma confined_tick_reset: "confined Q h \<Longrightarrow> confined Q (tick_reset dt h)"
  by (auto simp: tick_reset_def confined_def fire_reset_def reset_action_def
        split: option.splits)

lemma confined_advance: "confined Q h \<Longrightarrow> confined Q (advance dt h)"
  by (simp add: advance_def confined_tick_rank confined_tick_reset)

lemma confined_run:
  assumes "confined Q h"
    and "\<And>c event. Keyed c \<in> set (commandsArr h) \<Longrightarrow> eligible (enabled h) event c \<Longrightarrow> Q c"
  shows "confined Q (run ins h)"
  using assms unfolding run_def
proof (induction ins arbitrary: h)
  case Nil
  then show ?case by simp
next
  case (Cons i ins)
  have 1: "confined Q (step i h)"
  proof (cases i)
    case (KeyDown event)
    show ?thesis
      unfolding KeyDown step.simps
      using Cons.prems by (intro confined_keydown) auto
  next
    case (Wait dt)
    then show ?thesis using Cons.prems(1) by (simp add: confined_advance)
  qed
  have 2: "commandsArr (step i h) = commandsArr h" "enabled (step i h) = enabled h"
    by (simp_all add: step_frame)
  show ?case
    using Cons.IH[OF 1] Cons.prems(2) 2 by simp
qed

lemma confined_new: "confined Q (commandCenterKeyDownHandler mac cm en)"
  by (simp add: confined_def commandCenterKeyDownHandler_def)

lemma press_fields [simp]:
  "keyCode (press k) = k" "tagName (press k) = ''BODY''" "metaKey (press k) = False"
  "ctrlKey (press k) = False" "shiftKey (press k) = False" "altKey (press k) = False"
  by (simp_all add: press_def)

lemma ex_eligible [simp]:
  "eligible True (press k) ex_A" "eligible True (press k) ex_B" "eligible True (press k) ex_G"
  by (simp_all add: eligible_def isInputEvent_def truthy_def ex_A_def ex_B_def ex_G_def)

lemma ex_modifiers_held [simp]:
  "modifiers_held mac event ex_A" "modifiers_held mac event ex_B"
  "modifiers_held mac event ex_G"
  by (simp_all add: modifiers_held_def truthy_def ex_A_def ex_B_def ex_G_def)

lemma sublist_facts:
  "\<not> sublist ''7168'' ''71''" "\<not> sublist ''68'' ''71''" "sublist ''71'' ''71''"
  "sublist ''7168'' ''7168''" "sublist ''68'' ''7168''" "sublist ''71'' ''7168''"
  "\<not> sublist ''7168'' ''68''" "sublist ''68'' ''68''" "\<not> sublist ''71'' ''68''"
  "\<not> sublist ''7168'' []" "\<not> sublist ''68'' []" "\<not> sublist ''71'' []"
  by (simp_all add: sublist_eval)

section \<open>A fire of the resolution timer over no candidate\<close>

lemma run_BA_g:
  "keydown (press 71) ex_handler_BA
   = \<lparr>isMac = False, commandsArr = [Keyed ex_B, Keyed ex_A], enabled = True,
       recentKeyCodes = [71], validCommands = [], resetTimer = Some 2000, rankTimer = None,
       trace = []\<rparr>"
  by (simp add: ex_handler_BA_def commandCenterKeyDownHandler_def keydown_def reset_call_def
        Map_values_def loop_body_Keyed matches_def sig_A sig_B toString_71 sublist_facts
      del: loop_body.simps)

lemma run_BA_g_wait:
  "advance 100
     \<lparr>isMac = False, commandsArr = [Keyed ex_B, Keyed ex_A], enabled = True,
       recentKeyCodes = [71], validCommands = [], resetTimer = Some 2000, rankTimer = None,
       trace = []\<rparr>
   = \<lparr>isMac = False, commandsArr = [Keyed ex_B, Keyed ex_A], enabled = True,
       recentKeyCodes = [71], validCommands = [], resetTimer = Some 1900, rankTimer = None,
       trace = []\<rparr>"
  by (simp add: advance_def rank_due_first_def tick_rank_def tick_reset_def)

lemma disputing_BA:
  "hasDisputing ex_B [Keyed ex_B, Keyed ex_A]" "\<not> hasDisputing ex_A [Keyed ex_B, Keyed ex_A]"
  by (simp_all add: hasDisputing_def)

lemma run_BA_g_wait_d:
  "keydown (press 68)
     \<lparr>isMac = False, commandsArr = [Keyed ex_B, Keyed ex_A], enabled = True,
       recentKeyCodes = [71], validCommands = [], resetTimer = Some 1900, rankTimer = None,
       trace = []\<rparr>
   = \<lparr>isMac = False, commandsArr = [Keyed ex_B, Keyed ex_A], enabled = True,
       recentKeyCodes = [], validCommands = [], resetTimer = None, rankTimer = Some 200,
       trace = [PreventDefault, PreventDefault, Invoked ex_A]\<rparr>"
  by (simp add: keydown_def reset_call_def execute_disputing execute_plain disputing_BA
        loop_body_Keyed matches_def sig_A sig_B toString_71 toString_68 sublist_facts
      del: loop_body.simps)

lemma run_BA_g_wait_d_wait:
  "advance 200
     \<lparr>isMac = False, commandsArr = [Keyed ex_B, Keyed ex_A], enabled = True,
       recentKeyCodes = [], validCommands = [], resetTimer = None, rankTimer = Some 200,
       trace = [PreventDefault, PreventDefault, Invoked ex_A]\<rparr>
   = \<lparr>isMac = False, commandsArr = [Keyed ex_B, Keyed ex_A], enabled = True,
       recentKeyCodes = [], validCommands = [], resetTimer = None, rankTimer = None,
       trace = [PreventDefault, PreventDefault, Invoked ex_A, Uncaught TypeError]\<rparr>"
  by (simp add: advance_def rank_due_first_def tick_rank_def tick_reset_def fire_rank_def
        rankAndExecute_action_def getHighestPriorityCommand_def)

text \<open>
  C1, on the code. The registry holds \<^verbatim>\<open>B\<close> (keys \<^verbatim>\<open>d\<close>) before \<^verbatim>\<open>A\<close> (keys \<^verbatim>\<open>g d\<close>). The
  keys \<^verbatim>\<open>g\<close> and \<^verbatim>\<open>d\<close> are pressed 100 ms apart. On \<^verbatim>\<open>d\<close>, \<^verbatim>\<open>B\<close> disputes and arms the
  resolution timer; \<^verbatim>\<open>A\<close> does not dispute, runs at once and clears \<open>validCommands\<close>. The
  timer is still pending over the empty list, and when it fires 200 ms later
  \<^verbatim>\<open>rankAndExecute\<close> throws a TypeError: the fire is not a silent no-op.
\<close>

theorem empty_resolution_fire_throws:
  "validCommands (run [KeyDown (press 71), Wait 100, KeyDown (press 68)] ex_handler_BA) = []
   \<and> rankTimer (run [KeyDown (press 71), Wait 100, KeyDown (press 68)] ex_handler_BA)
       = Some 200
   \<and> rankAndExecute_action
        (run [KeyDown (press 71), Wait 100, KeyDown (press 68)] ex_handler_BA\<lparr>rankTimer := None\<rparr>)
       = Inl TypeError
   \<and> trace (run [KeyDown (press 71), Wait 100, KeyDown (press 68), Wait 200] ex_handler_BA)
       = [PreventDefault, PreventDefault, Invoked ex_A, Uncaught TypeError]"
  by (simp add: run_def run_BA_g run_BA_g_wait run_BA_g_wait_d run_BA_g_wait_d_wait
        rankAndExecute_action_def getHighestPriorityCommand_def)

section \<open>Eligibility\<close>

text \<open>
  C6. A chorded command that is disabled and not force-enabled is not eligible, whatever
  the event, and its callback never runs, whatever keys are pressed and however long one
  waits; a force-enabled command is eligible even while the global flag is false or the
  event comes from a text-entry control; a command that is not force-enabled is eligible
  exactly if it is not disabled, the global flag is true and the target of the event is
  no \<^verbatim>\<open>INPUT\<close>, \<^verbatim>\<open>TEXTAREA\<close> or \<^verbatim>\<open>SELECT\<close> element. The loop body skips a command that
  is not eligible and tests an eligible one for a match.
\<close>

theorem eligibility_of_commands:
  "(truthy (disabled c) \<and> \<not> truthy (forceEnable c) \<longrightarrow>
       \<not> eligible en event c
       \<and> c \<notin> set (callbacks (trace (run ins (commandCenterKeyDownHandler mac cm en)))))
   \<and> (truthy (forceEnable c) \<longrightarrow> eligible en event c)
   \<and> (\<not> truthy (forceEnable c) \<longrightarrow>
        (eligible en event c \<longleftrightarrow>
           \<not> truthy (disabled c) \<and> en
           \<and> tagName event \<notin> {''INPUT'', ''TEXTAREA'', ''SELECT''}))
   \<and> loop_body event (Keyed c) h =
        (if eligible (enabled h) event c
         then (if matches event h c
               then execute c (h\<lparr>trace := trace h @ [PreventDefault]\<rparr>) else h)
         else h)"
proof -
  let ?Q = "\<lambda>d. \<not> (truthy (disabled d) \<and> \<not> truthy (forceEnable d))"
  have "confined ?Q (run ins (commandCenterKeyDownHandler mac cm en))"
    by (rule confined_run) (auto simp: confined_new eligible_def split: if_splits)
  then have 1: "truthy (disabled c) \<and> \<not> truthy (forceEnable c) \<longrightarrow>
       c \<notin> set (callbacks (trace (run ins (commandCenterKeyDownHandler mac cm en))))"
    unfolding confined_def by blast
  have 2: "truthy (disabled c) \<and> \<not> truthy (forceEnable c) \<longrightarrow> \<not> eligible en event c"
    by (simp add: eligible_def)
  have 3: "truthy (forceEnable c) \<longrightarrow> eligible en event c"
    by (simp add: eligible_def)
  have 4: "\<not> truthy (forceEnable c) \<longrightarrow>
        (eligible en event c \<longleftrightarrow>
           \<not> truthy (disabled c) \<and> en
           \<and> tagName event \<notin> {''INPUT'', ''TEXTAREA'', ''SELECT''})"
    by (simp add: eligible_def isInputEvent_def)
  have 5: "loop_body event (Keyed c) h =
        (if eligible (enabled h) event c
         then (if matches event h c
               then execute c (h\<lparr>trace := trace h @ [PreventDefault]\<rparr>) else h)
         else h)"
    unfolding loop_body_Keyed by simp
  from 1 2 3 4 show ?thesis
    by (intro conjI impI) (simp_all only: 5 simp_thms)
qed

lemma ex_off_forced [simp]:
  "truthy (disabled ex_off)" "\<not> truthy (forceEnable ex_off)" "truthy (forceEnable ex_forced)"
  "keys ex_forced = [''d'']" "ref ex_forced = 7"
  by (simp_all add: ex_off_def ex_forced_def truthy_def)

lemma typing_fields [simp]: "keyCode (typing k) = k" "tagName (typing k) = ''INPUT''"
  by (simp_all add: typing_def)

lemma sig_forced: "signature ex_forced = ''68''"
  by (simp add: signature_def commandKeyCodes_def code_d toString_68)

lemma forced_runs_in_input:
  "callbacks (trace (keydown (typing 68)
      (commandCenterKeyDownHandler False [(''u'', [Keyed ex_forced])] False))) = [ex_forced]"
proof -
  have e: "eligible False (typing 68) ex_forced"
    by (simp add: eligible_def)
  have m: "modifiers_held False (typing 68) ex_forced"
    by (simp add: modifiers_held_def truthy_def ex_forced_def)
  have d: "\<not> hasDisputing ex_forced [Keyed ex_forced]"
    by (simp add: hasDisputing_def)
  show ?thesis
    by (simp add: commandCenterKeyDownHandler_def keydown_def reset_call_def Map_values_def
          loop_body_Keyed matches_def sig_forced toString_68 sublist_facts e m d
          execute_plain
        del: loop_body.simps)
qed

theorem eligibility_of_commands_witness:
  "truthy (disabled ex_off) \<and> \<not> truthy (forceEnable ex_off)
   \<and> \<not> eligible True (press 68) ex_off
   \<and> ex_off \<notin> set (callbacks (trace (run [KeyDown (press 68), Wait 200]
        (commandCenterKeyDownHandler False [(''u'', [Keyed ex_off])] True))))
   \<and> truthy (forceEnable ex_forced) \<and> eligible False (typing 68) ex_forced
   \<and> callbacks (trace (keydown (typing 68)
        (commandCenterKeyDownHandler False [(''u'', [Keyed ex_forced])] False))) = [ex_forced]"
  using eligibility_of_commands[of ex_off True "press 68" "[KeyDown (press 68), Wait 200]"
          False "[(''u'', [Keyed ex_off])]"]
        eligibility_of_commands[of ex_forced False "typing 68"]
        forced_runs_in_input
  by simp

section \<open>The chord g d against the key d\<close>

lemma chord_pair_facts:
  assumes "chord_pair A B cs en event"
  shows "signature A = ''7168''" and "signature B = ''68''"
    and "getCommandRank A = 2" and "getCommandRank B = 1"
    and "hasDisputing B cs" and "A \<noteq> B"
    and "modifiers_held mac ev A" and "modifiers_held mac ev B"
proof -
  have k: "keys A = [''g'', ''d'']" "keys B = [''d'']"
    and m: "modifierCount A = 0" "modifierCount B = 0"
    and r: "ref A \<noteq> ref B" and a: "Keyed A \<in> set cs"
    using assms by (simp_all add: chord_pair_def)
  show "signature A = ''7168''"
    by (simp add: signature_def commandKeyCodes_def k code_g code_d toString_71 toString_68)
  show "signature B = ''68''"
    by (simp add: signature_def commandKeyCodes_def k code_d toString_68)
  show rA: "getCommandRank A = 2" by (simp add: getCommandRank_def k m)
  show rB: "getCommandRank B = 1" by (simp add: getCommandRank_def k m)
  show "A \<noteq> B"
  proof
    assume "A = B"
    then have "ref A = ref B" by (rule arg_cong)
    with r show False by (rule notE)
  qed
  have "\<not> (ref B = ref_of (Keyed A))" using r by simp
  then show "hasDisputing B cs"
    unfolding hasDisputing_def list_ex_iff
    by (intro bexI[OF _ a]) (simp add: k rA rB)
  have "\<not> truthy (ctrl A) \<and> \<not> truthy (shift A) \<and> \<not> truthy (alt A)"
    using m(1) by (simp add: modifierCount_def split: if_splits)
  then show "modifiers_held mac ev A" by (simp add: modifiers_held_def)
  have "\<not> truthy (ctrl B) \<and> \<not> truthy (shift B) \<and> \<not> truthy (alt B)"
    using m(2) by (simp add: modifierCount_def split: if_splits)
  then show "modifiers_held mac ev B" by (simp add: modifiers_held_def)
qed

lemma chord_pair_cases:
  assumes "chord_pair A B cs en event" and "x \<in> set cs"
  obtains b where "x = Base b"
  | "x = Keyed A" | "x = Keyed B"
  | c where "x = Keyed c" and "\<not> sublist (signature c) ''7168''"
proof (cases x)
  case (Base b)
  then show ?thesis using that by blast
next
  case (Keyed c)
  then have "c = A \<or> c = B \<or> \<not> sublist (signature c) ''7168''"
    using assms by (simp add: chord_pair_def)
  then show ?thesis using that Keyed by blast
qed

lemma not_sublist_71: "\<not> sublist s ''7168'' \<Longrightarrow> \<not> sublist s ''71''"
proof
  assume n: "\<not> sublist s ''7168''" and s: "sublist s ''71''"
  have "sublist ''71'' ''7168''" by (rule sublist_facts)
  with s have "sublist s ''7168''" by (rule sublist_order.order_trans)
  with n show False by (rule notE)
qed

lemma not_sublist_Nil: "\<not> sublist s ''7168'' \<Longrightarrow> s \<noteq> []"
  by (cases s) auto

text \<open>The event of g: nothing matches the history 71.\<close>

lemma first_press_loop:
  assumes cp: "chord_pair A B cs en event" and h: "recentKeyCodes h = [71]"
    and xs: "set xs \<subseteq> set cs"
  shows "fold (loop_body e1) xs h = h"
  using xs
proof (induction xs)
  case Nil
  show ?case by simp
next
  case (Cons x xs)
  then have x: "x \<in> set cs" and rest: "set xs \<subseteq> set cs" by auto
  have hist: "concat (map toString (recentKeyCodes h)) = ''71''"
    by (simp add: h toString_71)
  have "loop_body e1 x h = h"
  proof (rule chord_pair_cases[OF cp x])
    fix b assume "x = Base b"
    then show ?thesis by simp
  next
    assume "x = Keyed A"
    then show ?thesis
      by (simp add: loop_body_Keyed matches_def hist chord_pair_facts(1)[OF cp] sublist_facts)
  next
    assume "x = Keyed B"
    then show ?thesis
      by (simp add: loop_body_Keyed matches_def hist chord_pair_facts(2)[OF cp] sublist_facts)
  next
    fix c assume "x = Keyed c" and "\<not> sublist (signature c) ''7168''"
    then show ?thesis
      by (simp add: loop_body_Keyed matches_def hist not_sublist_71)
  qed
  then show ?case using Cons.IH[OF rest] by simp
qed

text \<open>The event of d, once the callback of \<open>A\<close> has run: nothing matches the empty
  history.\<close>

lemma settled_loop:
  assumes cp: "chord_pair A B cs en event" and h: "recentKeyCodes h = []"
    and xs: "set xs \<subseteq> set cs"
  shows "fold (loop_body e2) xs h = h"
  using xs
proof (induction xs)
  case Nil
  show ?case by simp
next
  case (Cons x xs)
  then have x: "x \<in> set cs" and rest: "set xs \<subseteq> set cs" by auto
  have hist: "concat (map toString (recentKeyCodes h)) = []"
    by (simp add: h)
  have "loop_body e2 x h = h"
  proof (rule chord_pair_cases[OF cp x])
    fix b assume "x = Base b"
    then show ?thesis by simp
  next
    assume "x = Keyed A"
    then show ?thesis
      by (simp add: loop_body_Keyed matches_def hist chord_pair_facts(1)[OF cp])
  next
    assume "x = Keyed B"
    then show ?thesis
      by (simp add: loop_body_Keyed matches_def hist chord_pair_facts(2)[OF cp])
  next
    fix c assume "x = Keyed c" and "\<not> sublist (signature c) ''7168''"
    then show ?thesis
      by (simp add: loop_body_Keyed matches_def hist not_sublist_Nil)
  qed
  then show ?case using Cons.IH[OF rest] by simp
qed

text \<open>The event of d, before the callback of \<open>A\<close> has run: \<open>B\<close> becomes a candidate;
  \<open>A\<close> becomes a candidate if it disputes, and runs at once if not; nothing else
  matches.\<close>

lemma pending_step:
  assumes cp: "chord_pair A B cs en e2" and p: "pending A B cs en h" and x: "x \<in> set cs"
  shows "(x = Keyed A \<and> \<not> hasDisputing A cs \<longrightarrow> settled A cs en (loop_body e2 x h))
       \<and> (\<not> (x = Keyed A \<and> \<not> hasDisputing A cs) \<longrightarrow>
            pending A B cs en (loop_body e2 x h)
            \<and> set (validCommands h) \<subseteq> set (validCommands (loop_body e2 x h))
            \<and> (x = Keyed A \<longrightarrow> A \<in> set (validCommands (loop_body e2 x h))))"
proof -
  have f: "commandsArr h = cs" "enabled h = en" "recentKeyCodes h = [71, 68]"
      "set (validCommands h) \<subseteq> {A, B}" "callbacks (trace h) = []"
      "resetTimer h = Some 2000"
    using p by (simp_all add: pending_def)
  have hist: "concat (map toString (recentKeyCodes h)) = ''7168''"
    by (simp add: f toString_71 toString_68)
  have el: "eligible (enabled h) e2 A" "eligible (enabled h) e2 B"
    using cp by (simp_all add: chord_pair_def f)
  let ?h = "h\<lparr>trace := trace h @ [PreventDefault]\<rparr>"
  have arr: "commandsArr ?h = cs" by (simp add: f)
  show ?thesis
  proof (rule chord_pair_cases[OF cp x])
    fix b assume "x = Base b"
    then show ?thesis using p by simp
  next
    assume xa: "x = Keyed A"
    have lb: "loop_body e2 (Keyed A) h = execute A ?h"
      by (simp add: loop_body_Keyed matches_def hist el chord_pair_facts[OF cp]
            sublist_facts)
    show ?thesis
    proof (cases "hasDisputing A cs")
      case True
      then have "hasDisputing A (commandsArr ?h)" by (simp add: f)
      then have "loop_body e2 (Keyed A) h = ?h\<lparr>validCommands := validCommands ?h @ [A],
                                         rankTimer := Some 200\<rparr>"
        unfolding lb by (rule execute_disputing)
      then show ?thesis
        unfolding xa using True f by (simp add: pending_def callbacks_append subset_insertI)
    next
      case False
      then have "\<not> hasDisputing A (commandsArr ?h)" by (simp add: f)
      then have "loop_body e2 (Keyed A) h
                   = ?h\<lparr>trace := trace ?h @ [Invoked A], resetTimer := None,
                        recentKeyCodes := [], validCommands := []\<rparr>"
        unfolding lb by (rule execute_plain)
      then show ?thesis
        unfolding xa using False f by (simp add: settled_def callbacks_append)
    qed
  next
    assume xb: "x = Keyed B"
    have ne: "Keyed B \<noteq> Keyed A"
      using chord_pair_facts(6)[OF cp] by simp
    have lb: "loop_body e2 (Keyed B) h = execute B ?h"
      by (simp add: loop_body_Keyed matches_def hist el chord_pair_facts[OF cp]
            sublist_facts)
    have "hasDisputing B (commandsArr ?h)"
      using chord_pair_facts(5)[OF cp] by (simp add: f)
    then have "loop_body e2 (Keyed B) h = ?h\<lparr>validCommands := validCommands ?h @ [B],
                                         rankTimer := Some 200\<rparr>"
      unfolding lb by (rule execute_disputing)
    then show ?thesis
      unfolding xb using ne f by (simp add: pending_def callbacks_append subset_insertI)
  next
    fix c assume xc: "x = Keyed c" and n: "\<not> sublist (signature c) ''7168''"
    have ne: "x \<noteq> Keyed A"
      using xc n chord_pair_facts(1)[OF cp] by (auto simp: sublist_facts)
    have "loop_body e2 x h = h"
      by (simp add: xc loop_body_Keyed matches_def hist n)
    then show ?thesis using p ne by simp
  qed
qed

lemma pending_fold_disputing:
  assumes cp: "chord_pair A B cs en e2" and d: "hasDisputing A cs"
  shows "pending A B cs en h \<Longrightarrow> set xs \<subseteq> set cs \<Longrightarrow>
     pending A B cs en (fold (loop_body e2) xs h)
     \<and> (A \<in> set (validCommands h) \<or> Keyed A \<in> set xs
          \<longrightarrow> A \<in> set (validCommands (fold (loop_body e2) xs h)))"
proof (induction xs arbitrary: h)
  case Nil
  then show ?case by simp
next
  case (Cons x xs)
  then have x: "x \<in> set cs" and rest: "set xs \<subseteq> set cs" by auto
  let ?h = "loop_body e2 x h"
  have s: "pending A B cs en ?h" "set (validCommands h) \<subseteq> set (validCommands ?h)"
      "x = Keyed A \<longrightarrow> A \<in> set (validCommands ?h)"
    using pending_step[OF cp Cons.prems(1) x] d by simp_all
  have ih: "pending A B cs en (fold (loop_body e2) xs ?h)"
      "A \<in> set (validCommands ?h) \<or> Keyed A \<in> set xs
          \<longrightarrow> A \<in> set (validCommands (fold (loop_body e2) xs ?h))"
    using Cons.IH[OF s(1) rest] by simp_all
  show ?case
  proof (intro conjI impI)
    show "pending A B cs en (fold (loop_body e2) (x # xs) h)"
      using ih(1) by simp
    assume "A \<in> set (validCommands h) \<or> Keyed A \<in> set (x # xs)"
    then have "A \<in> set (validCommands ?h) \<or> Keyed A \<in> set xs"
      using s(2) s(3) by auto
    then show "A \<in> set (validCommands (fold (loop_body e2) (x # xs) h))"
      using ih(2) by simp
  qed
qed

lemma pending_fold_plain:
  assumes cp: "chord_pair A B cs en e2" and n: "\<not> hasDisputing A cs"
  shows "pending A B cs en h \<Longrightarrow> set xs \<subseteq> set cs \<Longrightarrow> Keyed A \<in> set xs \<Longrightarrow>
     settled A cs en (fold (loop_body e2) xs h)"
proof (induction xs arbitrary: h)
  case Nil
  then show ?case by simp
next
  case (Cons x xs)
  then have x: "x \<in> set cs" and rest: "set xs \<subseteq> set cs" by auto
  let ?h = "loop_body e2 x h"
  show ?case
  proof (cases "x = Keyed A")
    case True
    then have s: "settled A cs en ?h"
      using pending_step[OF cp Cons.prems(1) x] n by simp
    then have "recentKeyCodes ?h = []" by (simp add: settled_def)
    then have "fold (loop_body e2) xs ?h = ?h"
      using rest by (rule settled_loop[OF cp])
    with s show ?thesis by simp
  next
    case False
    then have p: "pending A B cs en ?h"
      using pending_step[OF cp Cons.prems(1) x] by simp
    have "Keyed A \<in> set xs" using Cons.prems(3) False by auto
    then have "settled A cs en (fold (loop_body e2) xs ?h)"
      using Cons.IH[OF p rest] by simp
    then show ?thesis by simp
  qed
qed

text \<open>The resolution window passes.\<close>

lemma winner_of_pair:
  assumes "A \<in> set vs" and "set vs \<subseteq> {A, B}"
    and "getCommandRank A = 2" and "getCommandRank B = 1"
  shows "getHighestPriorityCommand vs = Some A"
proof -
  have "vs \<noteq> []" using assms(1) by auto
  then obtain c where c: "getHighestPriorityCommand vs = Some c" "c \<in> set vs"
      "\<forall>d \<in> set vs. getCommandRank d \<le> getCommandRank c"
    using winner_member_maximal by blast
  have "getCommandRank A \<le> getCommandRank c" using c(3) assms(1) by blast
  then have "c \<noteq> B" using assms(3,4) by auto
  then have "c = A" using c(2) assms(2) by auto
  with c(1) show ?thesis by simp
qed

lemma pending_resolves:
  assumes cp: "chord_pair A B cs en e2" and p: "pending A B cs en h"
    and a: "A \<in> set (validCommands h)" and dt: "200 \<le> dt"
  shows "callbacks (trace (advance dt h)) = [A]"
proof -
  have f: "set (validCommands h) \<subseteq> {A, B}" "callbacks (trace h) = []"
      "resetTimer h = Some 2000" "rankTimer h = Some 200"
    using p a by (auto simp: pending_def)
  have w: "getHighestPriorityCommand (validCommands h) = Some A"
    using a f(1) chord_pair_facts(3,4)[OF cp] by (rule winner_of_pair)
  have fr: "fire_rank h = reset_immediate (invoke A (h\<lparr>rankTimer := None\<rparr>))"
    using w by (rule fire_rank_Some)
  have t: "tick_rank dt h = reset_immediate (invoke A (h\<lparr>rankTimer := None\<rparr>))"
    using dt by (simp add: tick_rank_def f fr)
  have "advance dt h = tick_reset dt (tick_rank dt h)"
    by (simp add: advance_def rank_due_first_def f)
  then show ?thesis
    unfolding t
    by (simp add: tick_reset_def reset_immediate_def reset_action_def invoke_def
          callbacks_append f)
qed

lemma settled_stays:
  assumes s: "settled A cs en h"
  shows "callbacks (trace (advance dt h)) = [A]"
proof -
  have f: "validCommands h = []" "callbacks (trace h) = [A]" "resetTimer h = None"
    using s by (simp_all add: settled_def)
  have n: "getHighestPriorityCommand (validCommands h) = None"
    by (simp add: f getHighestPriorityCommand_def)
  have t: "callbacks (trace (tick_rank dt h)) = [A] \<and> resetTimer (tick_rank dt h) = None"
    by (simp add: tick_rank_def fire_rank_None[OF n] f callbacks_append split: option.splits)
  have "advance dt h = tick_reset dt (tick_rank dt h)"
    by (simp add: advance_def rank_due_first_def f split: option.splits)
  then show ?thesis
    using t by (simp add: tick_reset_def)
qed

text \<open>
  C2 as amended. The flattened view holds \<open>A\<close> (keys \<^verbatim>\<open>g\<close>, \<^verbatim>\<open>d\<close>) and \<open>B\<close> (key \<^verbatim>\<open>d\<close>),
  different objects, anywhere and any number of times, neither with a modifier
  requirement and both eligible when \<^verbatim>\<open>d\<close> is pressed; the signature of no other chorded
  command of the view occurs in \<^verbatim>\<open>7168\<close>. The key \<^verbatim>\<open>g\<close> is pressed on a new handler,
  \<^verbatim>\<open>d\<close> less than 2000 ms later, and at least 200 ms pass. Then exactly one callback has
  run, the one of \<open>A\<close>, and the one of \<open>B\<close> has not.
\<close>

theorem gd_runs_A_only:
  assumes keysA: "keys A = [''g'', ''d'']" and keysB: "keys B = [''d'']"
    and modsA: "\<not> truthy (ctrl A) \<and> \<not> truthy (shift A) \<and> \<not> truthy (alt A)"
    and modsB: "\<not> truthy (ctrl B) \<and> \<not> truthy (shift B) \<and> \<not> truthy (alt B)"
    and refs: "ref A \<noteq> ref B"
    and inA: "Keyed A \<in> set (commands cm)" and inB: "Keyed B \<in> set (commands cm)"
    and others: "\<forall>c. Keyed c \<in> set (commands cm) \<longrightarrow>
                   c = A \<or> c = B \<or> \<not> sublist (signature c) ''7168''"
    and elA: "eligible en pressD A" and elB: "eligible en pressD B"
    and codeG: "keyCode pressG = 71" and codeD: "keyCode pressD = 68"
    and dt1: "dt1 < 2000" and dt2: "200 \<le> dt2"
  shows "callbacks (trace (run [KeyDown pressG, Wait dt1, KeyDown pressD, Wait dt2]
                             (commandCenterKeyDownHandler mac cm en))) = [A]
       \<and> B \<notin> set (callbacks (trace (run [KeyDown pressG, Wait dt1, KeyDown pressD, Wait dt2]
                             (commandCenterKeyDownHandler mac cm en))))"
proof -
  let ?cs = "commands cm"
  let ?H = "\<lambda>codes timer. \<lparr>isMac = mac, commandsArr = ?cs, enabled = en,
      recentKeyCodes = codes, validCommands = [], resetTimer = Some timer, rankTimer = None,
      trace = []\<rparr>"
  have cp: "chord_pair A B ?cs en pressD"
    using assms by (simp add: chord_pair_def modifierCount_def)
  have s1: "keydown pressG (commandCenterKeyDownHandler mac cm en) = ?H [71] 2000"
  proof -
    have "fold (loop_body pressG) ?cs (?H [71] 2000) = ?H [71] 2000"
      by (rule first_press_loop[OF cp]) simp_all
    then show ?thesis
      by (simp add: keydown_def commandCenterKeyDownHandler_def reset_call_def codeG
            commands_def)
  qed
  have s2: "advance dt1 (?H [71] 2000) = ?H [71] (2000 - dt1)"
    using dt1 by (simp add: advance_def rank_due_first_def tick_rank_def tick_reset_def)
  have s3: "keydown pressD (?H [71] (2000 - dt1))
            = fold (loop_body pressD) ?cs (?H [71, 68] 2000)"
    by (simp add: keydown_def reset_call_def codeD)
  have p: "pending A B ?cs en (?H [71, 68] 2000)"
    by (simp add: pending_def)
  let ?h3 = "fold (loop_body pressD) ?cs (?H [71, 68] 2000)"
  have r: "run [KeyDown pressG, Wait dt1, KeyDown pressD, Wait dt2]
             (commandCenterKeyDownHandler mac cm en) = advance dt2 ?h3"
    by (simp add: run_def s1 s2 s3)
  have "callbacks (trace (advance dt2 ?h3)) = [A]"
  proof (cases "hasDisputing A ?cs")
    case True
    have "pending A B ?cs en ?h3 \<and> (A \<in> set (validCommands (?H [71, 68] 2000))
             \<or> Keyed A \<in> set ?cs \<longrightarrow> A \<in> set (validCommands ?h3))"
      using cp True p by (rule pending_fold_disputing) simp
    then have "pending A B ?cs en ?h3" and "A \<in> set (validCommands ?h3)"
      using inA by simp_all
    then show ?thesis
      using dt2 by (intro pending_resolves[OF cp])
  next
    case False
    have "settled A ?cs en ?h3"
      using cp False p by (rule pending_fold_plain) (simp_all add: inA)
    then show ?thesis by (rule settled_stays)
  qed
  then have c: "callbacks (trace (run [KeyDown pressG, Wait dt1, KeyDown pressD, Wait dt2]
                             (commandCenterKeyDownHandler mac cm en))) = [A]"
    unfolding r .
  have "B \<noteq> A" using chord_pair_facts(6)[OF cp] by (rule not_sym)
  then show ?thesis unfolding c by simp
qed

lemma toString_88: "toString 88 = ''88''"
  by (simp add: toString.simps char_eval)

lemma code_x: "charCodeAt0 (toUpperCase ''x'') = Some 88"
  by (simp add: char_eval)

lemma sig_GDX: "signature ex_GDX = ''716888''"
  by (simp add: signature_def commandKeyCodes_def ex_GDX_def code_g code_d code_x
        toString_71 toString_68 toString_88)

theorem gd_runs_A_only_witness:
  "callbacks (trace (run [KeyDown (press 71), Wait 150, KeyDown (press 68), Wait 200]
      (commandCenterKeyDownHandler False
         [(''u'', [Keyed ex_B, Keyed ex_A]), (''v'', [Keyed ex_GDX])] True))) = [ex_A]
   \<and> ex_B \<notin> set (callbacks (trace (run [KeyDown (press 71), Wait 150, KeyDown (press 68),
                                          Wait 200]
      (commandCenterKeyDownHandler False
         [(''u'', [Keyed ex_B, Keyed ex_A]), (''v'', [Keyed ex_GDX])] True))))"
proof -
  let ?cm = "[(''u'', [Keyed ex_B, Keyed ex_A]), (''v'', [Keyed ex_GDX])]"
  have cs: "commands ?cm = [Keyed ex_B, Keyed ex_A, Keyed ex_GDX]"
    by (simp add: commands_def Map_values_def)
  have mA: "\<not> truthy (ctrl ex_A) \<and> \<not> truthy (shift ex_A) \<and> \<not> truthy (alt ex_A)"
    by (simp add: truthy_def ex_A_def)
  have mB: "\<not> truthy (ctrl ex_B) \<and> \<not> truthy (shift ex_B) \<and> \<not> truthy (alt ex_B)"
    by (simp add: truthy_def ex_B_def)
  have r: "ref ex_A \<noteq> ref ex_B" by simp
  have n: "\<not> sublist (signature ex_GDX) ''7168''"
    by (simp add: sig_GDX sublist_eval)
  have o: "\<forall>c. Keyed c \<in> set (commands ?cm) \<longrightarrow>
              c = ex_A \<or> c = ex_B \<or> \<not> sublist (signature c) ''7168''"
    unfolding cs using n by auto
  have i: "Keyed ex_A \<in> set (commands ?cm)" "Keyed ex_B \<in> set (commands ?cm)"
    unfolding cs by simp_all
  show ?thesis
    by (rule gd_runs_A_only[OF _ _ mA mB r i o]) simp_all
qed

text \<open>
  C2 as stated fails on a registry that holds a third command. With \<^verbatim>\<open>G\<close> (key \<^verbatim>\<open>g\<close>)
  registered beside \<^verbatim>\<open>A\<close> and \<^verbatim>\<open>B\<close>, the press of \<^verbatim>\<open>g\<close> makes \<^verbatim>\<open>G\<close> a candidate; 300 ms
  later, within the inactivity window, \<^verbatim>\<open>d\<close> is pressed, but the resolution timer has run
  the callback of \<^verbatim>\<open>G\<close> and cleared the history at 200 ms, so only \<^verbatim>\<open>B\<close> matches, and its
  callback runs when the next resolution window ends. The callback of \<^verbatim>\<open>A\<close> never runs.
\<close>

lemma run_ABG_g:
  "keydown (press 71) ex_handler_ABG
   = \<lparr>isMac = False, commandsArr = [Keyed ex_A, Keyed ex_B, Keyed ex_G], enabled = True,
       recentKeyCodes = [71], validCommands = [ex_G], resetTimer = Some 2000,
       rankTimer = Some 200, trace = [PreventDefault]\<rparr>"
proof -
  have d: "hasDisputing ex_G [Keyed ex_A, Keyed ex_B, Keyed ex_G]"
    by (simp add: hasDisputing_def)
  show ?thesis
    by (simp add: ex_handler_ABG_def commandCenterKeyDownHandler_def keydown_def
          reset_call_def Map_values_def loop_body_Keyed matches_def sig_A sig_B sig_G
          toString_71 sublist_facts execute_disputing d)
qed

lemma run_ABG_g_wait:
  "advance 300
     \<lparr>isMac = False, commandsArr = [Keyed ex_A, Keyed ex_B, Keyed ex_G], enabled = True,
       recentKeyCodes = [71], validCommands = [ex_G], resetTimer = Some 2000,
       rankTimer = Some 200, trace = [PreventDefault]\<rparr>
   = \<lparr>isMac = False, commandsArr = [Keyed ex_A, Keyed ex_B, Keyed ex_G], enabled = True,
       recentKeyCodes = [], validCommands = [], resetTimer = None,
       rankTimer = None, trace = [PreventDefault, Invoked ex_G]\<rparr>"
  by (simp add: advance_def rank_due_first_def tick_rank_def tick_reset_def fire_rank_def
        rankAndExecute_action_def getHighestPriorityCommand_def reset_immediate_def
        reset_action_def invoke_def)

lemma run_ABG_g_wait_d:
  "keydown (press 68)
     \<lparr>isMac = False, commandsArr = [Keyed ex_A, Keyed ex_B, Keyed ex_G], enabled = True,
       recentKeyCodes = [], validCommands = [], resetTimer = None,
       rankTimer = None, trace = [PreventDefault, Invoked ex_G]\<rparr>
   = \<lparr>isMac = False, commandsArr = [Keyed ex_A, Keyed ex_B, Keyed ex_G], enabled = True,
       recentKeyCodes = [68], validCommands = [ex_B], resetTimer = Some 2000,
       rankTimer = Some 200, trace = [PreventDefault, Invoked ex_G, PreventDefault]\<rparr>"
proof -
  have d: "hasDisputing ex_B [Keyed ex_A, Keyed ex_B, Keyed ex_G]"
    by (simp add: hasDisputing_def)
  show ?thesis
    by (simp add: keydown_def reset_call_def loop_body_Keyed matches_def sig_A sig_B sig_G
          toString_68 sublist_facts execute_disputing d)
qed

lemma run_ABG_g_wait_d_wait:
  "advance 200
     \<lparr>isMac = False, commandsArr = [Keyed ex_A, Keyed ex_B, Keyed ex_G], enabled = True,
       recentKeyCodes = [68], validCommands = [ex_B], resetTimer = Some 2000,
       rankTimer = Some 200, trace = [PreventDefault, Invoked ex_G, PreventDefault]\<rparr>
   = \<lparr>isMac = False, commandsArr = [Keyed ex_A, Keyed ex_B, Keyed ex_G], enabled = True,
       recentKeyCodes = [], validCommands = [], resetTimer = None,
       rankTimer = None,
       trace = [PreventDefault, Invoked ex_G, PreventDefault, Invoked ex_B]\<rparr>"
  by (simp add: advance_def rank_due_first_def tick_rank_def tick_reset_def fire_rank_def
        rankAndExecute_action_def getHighestPriorityCommand_def reset_immediate_def
        reset_action_def invoke_def)

theorem gd_with_third_command_counterexample:
  "callbacks (trace (run [KeyDown (press 71), Wait 300, KeyDown (press 68), Wait 200]
      (commandCenterKeyDownHandler False
         [(''u'', [Keyed ex_A, Keyed ex_B, Keyed ex_G])] True))) = [ex_G, ex_B]
   \<and> ex_A \<notin> set [ex_G, ex_B]"
proof -
  have "ex_A \<noteq> ex_G" "ex_A \<noteq> ex_B"
    by (simp_all add: ex_A_def ex_G_def ex_B_def)
  then show ?thesis
    by (simp add: run_def ex_handler_ABG_def[symmetric] run_ABG_g run_ABG_g_wait
          run_ABG_g_wait_d run_ABG_g_wait_d_wait)
qed

section \<open>Matching\<close>

lemma keydown_split:
  assumes "commandsArr h = before @ Keyed c # after"
  shows "keydown event h
         = fold (loop_body event) after (loop_body event (Keyed c) (tested_in event before h))"
  by (simp add: keydown_def tested_in_def assms)

lemma tested_in_frame:
  "enabled (tested_in event before h) = enabled h
   \<and> isMac (tested_in event before h) = isMac h"
  by (simp add: tested_in_def fold_loop_body_frame reset_call_def)

text \<open>During one event the history changes only when a callback runs, and then it is
  empty.\<close>

lemma loop_body_history:
  "(callbacks (trace (loop_body event x h)) = callbacks (trace h)
      \<and> recentKeyCodes (loop_body event x h) = recentKeyCodes h)
   \<or> (\<exists>c. callbacks (trace (loop_body event x h)) = callbacks (trace h) @ [c]
         \<and> recentKeyCodes (loop_body event x h) = [])"
proof (cases x)
  case (Base b)
  then show ?thesis by simp
next
  case (Keyed c)
  let ?h = "h\<lparr>trace := trace h @ [PreventDefault]\<rparr>"
  show ?thesis
  proof (cases "eligible (enabled h) event c \<and> matches event h c")
    case False
    then have "loop_body event x h = h"
      unfolding Keyed loop_body_Keyed by (rule if_not_P)
    then show ?thesis by simp
  next
    case True
    then have lb: "loop_body event x h = execute c ?h"
      unfolding Keyed loop_body_Keyed by simp
    show ?thesis
    proof (cases "hasDisputing c (commandsArr ?h)")
      case True
      show ?thesis
        unfolding lb execute_disputing[OF True] by (simp add: callbacks_append)
    next
      case False
      show ?thesis
        unfolding lb execute_plain[OF False] by (simp add: callbacks_append)
    qed
  qed
qed

lemma fold_loop_body_history:
  "(callbacks (trace (fold (loop_body event) xs h)) = callbacks (trace h)
      \<and> recentKeyCodes (fold (loop_body event) xs h) = recentKeyCodes h)
   \<or> (\<exists>cs. cs \<noteq> [] \<and> callbacks (trace (fold (loop_body event) xs h)) = callbacks (trace h) @ cs
         \<and> recentKeyCodes (fold (loop_body event) xs h) = [])"
proof (induction xs arbitrary: h)
  case Nil
  show ?case by simp
next
  case (Cons x xs)
  let ?h1 = "loop_body event x h"
  let ?h2 = "fold (loop_body event) xs ?h1"
  have f: "fold (loop_body event) (x # xs) h = ?h2" by simp
  consider (same) "callbacks (trace ?h1) = callbacks (trace h)"
      "recentKeyCodes ?h1 = recentKeyCodes h"
    | (ran) c where "callbacks (trace ?h1) = callbacks (trace h) @ [c]"
      "recentKeyCodes ?h1 = []"
    using loop_body_history[of event x h] by blast
  then show ?case
  proof cases
    case same
    show ?thesis unfolding f using Cons.IH[of ?h1] same by simp
  next
    case (ran c)
    consider (same2) "callbacks (trace ?h2) = callbacks (trace ?h1)"
        "recentKeyCodes ?h2 = recentKeyCodes ?h1"
      | (ran2) cs where "cs \<noteq> []" "callbacks (trace ?h2) = callbacks (trace ?h1) @ cs"
        "recentKeyCodes ?h2 = []"
      using Cons.IH[of ?h1] by blast
    then show ?thesis
    proof cases
      case same2
      have "[c] \<noteq> [] \<and> callbacks (trace ?h2) = callbacks (trace h) @ [c]
            \<and> recentKeyCodes ?h2 = []"
        using same2 ran by simp
      then show ?thesis unfolding f by blast
    next
      case (ran2 cs)
      have "c # cs \<noteq> [] \<and> callbacks (trace ?h2) = callbacks (trace h) @ (c # cs)
            \<and> recentKeyCodes ?h2 = []"
        using ran2 ran by simp
      then show ?thesis unfolding f by blast
    qed
  qed
qed

lemma tested_in_history:
  "(callbacks (trace (tested_in event before h)) = callbacks (trace h)
      \<and> recentKeyCodes (tested_in event before h) = recentKeyCodes h @ [keyCode event])
   \<or> (callbacks (trace (tested_in event before h)) \<noteq> callbacks (trace h)
      \<and> recentKeyCodes (tested_in event before h) = [])"
proof -
  let ?h0 = "reset_call (h\<lparr>recentKeyCodes := recentKeyCodes h @ [keyCode event]\<rparr>)"
  have 0: "callbacks (trace ?h0) = callbacks (trace h)"
      "recentKeyCodes ?h0 = recentKeyCodes h @ [keyCode event]"
    by (simp_all add: reset_call_def)
  have t: "tested_in event before h = fold (loop_body event) before ?h0"
    by (simp add: tested_in_def)
  show ?thesis
    unfolding t using fold_loop_body_history[of event before ?h0] unfolding 0 by auto
qed

text \<open>
  C5. A keydown event appends its code to \<open>recentKeyCodes\<close> and tests the commands of
  \<open>commandsArr\<close> in their order. An eligible chorded command is tested in the state that
  the commands before it have left, where the history is the whole history with the code
  of the event at its end, unless the callback of an earlier command has run during this
  event and emptied it. For the command, \<^verbatim>\<open>preventDefault\<close> and \<^verbatim>\<open>execute\<close> are called if
  it matches and nothing is done if not; it matches if and only if its signature occurs
  as a contiguous run in the concatenated decimal key codes of that history and each
  modifier it declares is held in the event, ctrl standing for the meta key on a Mac and
  for the control key elsewhere; an undeclared modifier asks for nothing. The signature is
  the concatenation of the codes of the upper-case first characters of the key labels, in
  their order.
\<close>

theorem eligible_command_matches_iff:
  assumes arr: "commandsArr h = before @ Keyed c # after"
    and el: "eligible (enabled h) event c"
  shows
    "keydown event h =
       fold (loop_body event) after
         (if matches event (tested_in event before h) c
          then execute c
                 ((tested_in event before h)
                    \<lparr>trace := trace (tested_in event before h) @ [PreventDefault]\<rparr>)
          else tested_in event before h)
     \<and> ((callbacks (trace (tested_in event before h)) = callbacks (trace h)
           \<and> recentKeyCodes (tested_in event before h) = recentKeyCodes h @ [keyCode event])
         \<or> (callbacks (trace (tested_in event before h)) \<noteq> callbacks (trace h)
           \<and> recentKeyCodes (tested_in event before h) = []))
     \<and> (matches event (tested_in event before h) c \<longleftrightarrow>
          (\<exists>left right.
              concat (map toString (recentKeyCodes (tested_in event before h)))
              = left @ signature c @ right)
          \<and> (truthy (ctrl c) \<longrightarrow> (if isMac h then metaKey event else ctrlKey event))
          \<and> (truthy (shift c) \<longrightarrow> shiftKey event)
          \<and> (truthy (alt c) \<longrightarrow> altKey event))
     \<and> signature c
         = concat (map (\<lambda>key. code_toString (charCodeAt0 (toUpperCase key))) (keys c))
     \<and> execute c
          ((tested_in event before h)
             \<lparr>trace := trace (tested_in event before h) @ [PreventDefault]\<rparr>)
         \<noteq> tested_in event before h"
proof -
  let ?t = "tested_in event before h"
  let ?p = "?t\<lparr>trace := trace ?t @ [PreventDefault]\<rparr>"
  have el': "eligible (enabled ?t) event c"
    using el by (simp add: tested_in_frame)
  have "loop_body event (Keyed c) ?t = (if matches event ?t c then execute c ?p else ?t)"
    unfolding loop_body_Keyed using el' by simp
  then have 1: "keydown event h =
       fold (loop_body event) after (if matches event ?t c then execute c ?p else ?t)"
    using keydown_split[OF arr, of event] by simp
  have 2: "(callbacks (trace ?t) = callbacks (trace h)
           \<and> recentKeyCodes ?t = recentKeyCodes h @ [keyCode event])
         \<or> (callbacks (trace ?t) \<noteq> callbacks (trace h) \<and> recentKeyCodes ?t = [])"
    by (rule tested_in_history)
  have 3: "matches event ?t c \<longleftrightarrow>
          (\<exists>left right. concat (map toString (recentKeyCodes ?t)) = left @ signature c @ right)
          \<and> (truthy (ctrl c) \<longrightarrow> (if isMac h then metaKey event else ctrlKey event))
          \<and> (truthy (shift c) \<longrightarrow> shiftKey event)
          \<and> (truthy (alt c) \<longrightarrow> altKey event)"
    by (simp add: matches_def modifiers_held_def sublist_def tested_in_frame)
  have 4: "signature c
         = concat (map (\<lambda>key. code_toString (charCodeAt0 (toUpperCase key))) (keys c))"
    by (simp add: signature_def commandKeyCodes_def comp_def)
  have t: "trace (execute c ?p) \<noteq> trace ?t"
    by (cases "hasDisputing c (commandsArr ?p)") (simp_all add: execute_disputing execute_plain)
  have 5: "execute c ?p \<noteq> ?t"
  proof
    assume "execute c ?p = ?t"
    then have "trace (execute c ?p) = trace ?t" by (rule arg_cong)
    with t show False by (rule notE)
  qed
  show ?thesis
    by (intro conjI) (rule 1, rule 2, rule 3, rule 4, rule 5)
qed

theorem eligible_command_matches_iff_witness:
  "commandsArr ex_listening = [Keyed ex_B] @ Keyed ex_A # []
   \<and> eligible (enabled ex_listening) (press 68) ex_A
   \<and> recentKeyCodes (tested_in (press 68) [Keyed ex_B] ex_listening) = [71, 68]
   \<and> matches (press 68) (tested_in (press 68) [Keyed ex_B] ex_listening) ex_A
   \<and> callbacks (trace (keydown (press 68) ex_listening)) = [ex_A]"
proof -
  have arr: "commandsArr ex_listening = [Keyed ex_B] @ Keyed ex_A # []"
    by (simp add: ex_listening_def)
  have el: "eligible (enabled ex_listening) (press 68) ex_A"
    by (simp add: ex_listening_def)
  let ?t = "tested_in (press 68) [Keyed ex_B] ex_listening"
  have t: "?t = \<lparr>isMac = False, commandsArr = [Keyed ex_B, Keyed ex_A], enabled = True,
      recentKeyCodes = [71, 68], validCommands = [ex_B], resetTimer = Some 2000,
      rankTimer = Some 200, trace = [PreventDefault]\<rparr>"
    by (simp add: tested_in_def ex_listening_def reset_call_def loop_body_Keyed matches_def
          sig_B toString_71 toString_68 sublist_facts execute_disputing disputing_BA)
  have m: "matches (press 68) ?t ex_A"
    unfolding t by (simp add: matches_def sig_A toString_71 toString_68 sublist_facts)
  have k: "keydown (press 68) ex_listening
           = execute ex_A (?t\<lparr>trace := trace ?t @ [PreventDefault]\<rparr>)"
    using eligible_command_matches_iff[OF arr el] m by simp
  have c: "callbacks (trace (keydown (press 68) ex_listening)) = [ex_A]"
    unfolding k t by (simp add: execute_plain disputing_BA)
  have r: "recentKeyCodes ?t = [71, 68]" unfolding t by simp
  show ?thesis
    by (intro conjI) (rule arr, rule el, rule r, rule m, rule c)
qed

section \<open>A handler is a new closure over a snapshot\<close>
















lemma advance_ex_resolving:
  "callbacks (trace (advance 200 ex_resolving)) = [ex_B]
   \<and> validCommands (advance 200 ex_resolving) = []"
  by (simp add: ex_resolving_def advance_def rank_due_first_def tick_rank_def tick_reset_def
        fire_rank_def rankAndExecute_action_def getHighestPriorityCommand_def
        reset_immediate_def reset_action_def invoke_def)







end
